theory Spec2Isabelle
  imports Main "HOL-Library.AList"
begin

section \<open>Containers of the host language\<close>

text \<open>
  The graph of \<^verbatim>\<open>DependencyGraph\<close> is held in three JavaScript \<^verbatim>\<open>Map\<close>s whose values
  are \<^verbatim>\<open>Set\<close>s or plain objects. Both containers iterate in insertion order, and the
  algorithms below (traversal, cycle path, tree building) depend on that order, so a
  \<^verbatim>\<open>Map\<close> is an association list and a \<^verbatim>\<open>Set\<close> is a list, both in insertion order.

  \<^item> \<^verbatim>\<open>m.has(k)\<close>, \<^verbatim>\<open>m.get(k)\<close>: \<open>map_has\<close>, \<open>map_of\<close> (\<open>None\<close> is \<^verbatim>\<open>undefined\<close>);
  \<^item> \<^verbatim>\<open>m.set(k, v)\<close>: \<open>AList.update\<close>, which overwrites in place or appends;
  \<^item> \<^verbatim>\<open>m.delete(k)\<close>: \<open>AList.delete\<close>;
  \<^item> \<^verbatim>\<open>m.get(k)?.delete(x)\<close>: \<open>map_adjust k (set_delete x)\<close>, nothing when \<open>k\<close> is absent;
  \<^item> \<^verbatim>\<open>s.add(x)\<close>: \<open>set_add\<close>, which appends unless \<open>x\<close> is there already.
\<close>

type_synonym node_id = string
type_synonym 'a js_set = "'a list"
type_synonym ('k, 'v) js_map = "('k \<times> 'v) list"

definition map_has :: "('k, 'v) js_map \<Rightarrow> 'k \<Rightarrow> bool" where
  "map_has m k = (map_of m k \<noteq> None)"

definition map_keys :: "('k, 'v) js_map \<Rightarrow> 'k list" where
  "map_keys m = map fst m"

definition map_adjust :: "'k \<Rightarrow> ('v \<Rightarrow> 'v) \<Rightarrow> ('k, 'v) js_map \<Rightarrow> ('k, 'v) js_map" where
  "map_adjust k f m = map (\<lambda>(k', v). if k' = k then (k', f v) else (k', v)) m"

definition set_add :: "'a \<Rightarrow> 'a js_set \<Rightarrow> 'a js_set" where
  "set_add x s = (if x \<in> set s then s else s @ [x])"

definition set_delete :: "'a \<Rightarrow> 'a js_set \<Rightarrow> 'a js_set" where
  "set_delete x s = removeAll x s"

text \<open>
  A list represents a \<^verbatim>\<open>Map\<close> when its keys are distinct, and a \<^verbatim>\<open>Set\<close> when its
  elements are.
\<close>

definition is_map :: "('k, 'v) js_map \<Rightarrow> bool" where
  "is_map m = distinct (map fst m)"

section \<open>The graph store\<close>

text \<open>
  The value of the edge table is the object \<^verbatim>\<open>{ to, type }\<close>; its key is the string
  \<^verbatim>\<open>`${fromNodeId}->${toNodeId}`\<close>.
\<close>

record edge =
  to :: node_id
  type :: string

record graph =
  nodes :: "(node_id, node_id js_set) js_map"
  incomingEdges :: "(node_id, node_id js_set) js_map"
  edges :: "(string, edge) js_map"

definition new_graph :: graph where
  "new_graph = \<lparr>nodes = [], incomingEdges = [], edges = []\<rparr>"

definition edgeId :: "node_id \<Rightarrow> node_id \<Rightarrow> string" where
  "edgeId fromNodeId toNodeId = fromNodeId @ ''->'' @ toNodeId"

definition hasNode :: "graph \<Rightarrow> node_id \<Rightarrow> bool" where
  "hasNode g nodeId = map_has (nodes g) nodeId"

definition addNode :: "graph \<Rightarrow> node_id \<Rightarrow> bool \<times> graph" where
  "addNode g nodeId =
     (if map_has (nodes g) nodeId then (False, g)
      else (True, g\<lparr>nodes := AList.update nodeId [] (nodes g),
                     incomingEdges := AList.update nodeId [] (incomingEdges g)\<rparr>))"

text \<open>
  \<^verbatim>\<open>removeNode\<close> runs two loops. The first walks the outgoing set of the node and edits
  the edge table and the incoming sets of the neighbours; the second walks the incoming
  set of the node, as the first loop left it, and edits the edge table and the outgoing
  sets. Neither loop edits the set it walks.
\<close>

definition drop_outgoing :: "node_id \<Rightarrow> node_id \<Rightarrow> graph \<Rightarrow> graph" where
  "drop_outgoing nodeId dependencyId g =
     g\<lparr>edges := AList.delete (edgeId nodeId dependencyId) (edges g),
       incomingEdges := map_adjust dependencyId (set_delete nodeId) (incomingEdges g)\<rparr>"

definition drop_incoming :: "node_id \<Rightarrow> node_id \<Rightarrow> graph \<Rightarrow> graph" where
  "drop_incoming nodeId dependentId g =
     g\<lparr>edges := AList.delete (edgeId dependentId nodeId) (edges g),
       nodes := map_adjust dependentId (set_delete nodeId) (nodes g)\<rparr>"

definition set_or_empty :: "'a js_set option \<Rightarrow> 'a js_set" where
  "set_or_empty s = (case s of None \<Rightarrow> [] | Some xs \<Rightarrow> xs)"

definition removeNode :: "graph \<Rightarrow> node_id \<Rightarrow> bool \<times> graph" where
  "removeNode g nodeId =
     (if \<not> map_has (nodes g) nodeId then (False, g)
      else
        let nodesThisDependsOn = set_or_empty (map_of (nodes g) nodeId);
            g1 = fold (drop_outgoing nodeId) nodesThisDependsOn g;
            nodesThatDependOnThis = set_or_empty (map_of (incomingEdges g1) nodeId);
            g2 = fold (drop_incoming nodeId) nodesThatDependOnThis g1
        in (True, g2\<lparr>nodes := AList.delete nodeId (nodes g2),
                       incomingEdges := AList.delete nodeId (incomingEdges g2)\<rparr>))"

text \<open>
  \<^verbatim>\<open>addEdge\<close> calls \<^verbatim>\<open>.add\<close> on \<^verbatim>\<open>this.nodes.get(fromNodeId)\<close> and on
  \<^verbatim>\<open>this.incomingEdges.get(toNodeId)\<close> without a guard. The first exists after the two
  \<^verbatim>\<open>addNode\<close> calls; the second is \<^verbatim>\<open>undefined\<close> when the two maps disagree on their
  keys, and the call then throws a \<^verbatim>\<open>TypeError\<close>.
\<close>

datatype js_error = TypeError | Error string

definition addEdge :: "graph \<Rightarrow> node_id \<Rightarrow> node_id \<Rightarrow> string \<Rightarrow> js_error + graph" where
  "addEdge g fromNodeId toNodeId ty =
     (let g1 = snd (addNode g fromNodeId);
          g2 = snd (addNode g1 toNodeId)
      in if \<not> map_has (nodes g2) fromNodeId \<or> \<not> map_has (incomingEdges g2) toNodeId
         then Inl TypeError
         else Inr (g2\<lparr>nodes := map_adjust fromNodeId (set_add toNodeId) (nodes g2),
                        incomingEdges := map_adjust toNodeId (set_add fromNodeId) (incomingEdges g2),
                        edges := AList.update (edgeId fromNodeId toNodeId)
                                   \<lparr>to = toNodeId, type = ty\<rparr> (edges g2)\<rparr>))"

definition removeEdge :: "graph \<Rightarrow> node_id \<Rightarrow> node_id \<Rightarrow> bool \<times> graph" where
  "removeEdge g fromNodeId toNodeId =
     (let edgeId = edgeId fromNodeId toNodeId
      in if \<not> map_has (edges g) edgeId then (False, g)
         else (True, g\<lparr>edges := AList.delete edgeId (edges g),
                        nodes := map_adjust fromNodeId (set_delete toNodeId) (nodes g),
                        incomingEdges := map_adjust toNodeId (set_delete fromNodeId) (incomingEdges g)\<rparr>))"

text \<open>The adjacency sets as the readers of the store see them: empty for an absent key.\<close>

definition outgoing :: "graph \<Rightarrow> node_id \<Rightarrow> node_id js_set" where
  "outgoing g x = set_or_empty (map_of (nodes g) x)"

definition incoming :: "graph \<Rightarrow> node_id \<Rightarrow> node_id js_set" where
  "incoming g x = set_or_empty (map_of (incomingEdges g) x)"

subsection \<open>Sequences of calls\<close>

datatype call =
    AddNode node_id
  | AddEdge node_id node_id string
  | RemoveEdge node_id node_id
  | RemoveNode node_id

fun perform :: "call \<Rightarrow> graph \<Rightarrow> js_error + graph" where
  "perform (AddNode n) g = Inr (snd (addNode g n))"
| "perform (AddEdge f t ty) g = addEdge g f t ty"
| "perform (RemoveEdge f t) g = Inr (snd (removeEdge g f t))"
| "perform (RemoveNode n) g = Inr (snd (removeNode g n))"

fun perform_all :: "call list \<Rightarrow> graph \<Rightarrow> js_error + graph" where
  "perform_all [] g = Inr g"
| "perform_all (c # cs) g =
     (case perform c g of Inl e \<Rightarrow> Inl e | Inr g' \<Rightarrow> perform_all cs g')"

subsection \<open>The invariant of the store\<close>

text \<open>
  An entry \<open>(k, e)\<close> of the edge table is the edge from \<open>f\<close> to \<open>to e\<close> for the
  \<open>f\<close> with \<open>k = edgeId f (to e)\<close>. The invariant says that both endpoints of every
  entry are present nodes, that the entry is recorded in both adjacency indices, that
  the two indices mirror each other, and that every member of an adjacency set is a
  present node.
\<close>

definition store_invariant :: "graph \<Rightarrow> bool" where
  "store_invariant g \<longleftrightarrow>
     set (map_keys (nodes g)) = set (map_keys (incomingEdges g)) \<and>
     (\<forall>(k, e) \<in> set (edges g). \<exists>f \<in> set (map_keys (nodes g)).
        k = edgeId f (to e) \<and> hasNode g (to e) \<and>
        to e \<in> set (outgoing g f) \<and> f \<in> set (incoming g (to e))) \<and>
     (\<forall>x \<in> set (map_keys (nodes g)). \<forall>y \<in> set (outgoing g x).
        hasNode g y \<and> x \<in> set (incoming g y)) \<and>
     (\<forall>y \<in> set (map_keys (incomingEdges g)). \<forall>x \<in> set (incoming g y).
        hasNode g x \<and> y \<in> set (outgoing g x))"

text \<open>
  The same facts in the form the proofs use: over the maps the lists denote, with the
  membership of the endpoints derived from the symmetry of the two indices.
\<close>

definition lockstep :: "graph \<Rightarrow> bool" where
  "lockstep g \<longleftrightarrow>
     dom (map_of (nodes g)) = dom (map_of (incomingEdges g)) \<and>
     (\<forall>x y. y \<in> set (outgoing g x) \<longleftrightarrow> x \<in> set (incoming g y)) \<and>
     (\<forall>(k, e) \<in> set (edges g). \<exists>f. k = edgeId f (to e) \<and> to e \<in> set (outgoing g f))"


subsection \<open>Every call keeps the invariant\<close>

lemma lockstepI:
  assumes "dom (map_of (nodes g)) = dom (map_of (incomingEdges g))"
    and "\<And>x y. y \<in> set (outgoing g x) \<longleftrightarrow> x \<in> set (incoming g y)"
    and "\<And>k e. (k, e) \<in> set (edges g) \<Longrightarrow> \<exists>f. k = edgeId f (to e) \<and> to e \<in> set (outgoing g f)"
  shows "lockstep g"
  unfolding lockstep_def
proof (intro conjI allI ballI)
  show "dom (map_of (nodes g)) = dom (map_of (incomingEdges g))" by (rule assms(1))
  show "\<And>x y. y \<in> set (outgoing g x) \<longleftrightarrow> x \<in> set (incoming g y)" by (rule assms(2))
  show "\<And>p. p \<in> set (edges g) \<Longrightarrow>
          (case p of (k, e) \<Rightarrow> \<exists>f. k = edgeId f (to e) \<and> to e \<in> set (outgoing g f))"
    using assms(3) by (simp add: split_beta)
qed

lemma lockstep_keys:
  "lockstep g \<Longrightarrow> dom (map_of (nodes g)) = dom (map_of (incomingEdges g))"
  by (simp add: lockstep_def)

lemma lockstep_sym:
  "lockstep g \<Longrightarrow> y \<in> set (outgoing g x) \<longleftrightarrow> x \<in> set (incoming g y)"
  by (simp add: lockstep_def)

lemma lockstep_edge:
  "lockstep g \<Longrightarrow> (k, e) \<in> set (edges g) \<Longrightarrow>
     \<exists>f. k = edgeId f (to e) \<and> to e \<in> set (outgoing g f)"
  unfolding lockstep_def by (elim conjE) (drule (1) bspec, simp)

lemma map_of_map_adjust:
  "map_of (map_adjust k f m) x = (if x = k then map_option f (map_of m k) else map_of m x)"
  unfolding map_adjust_def by (induction m) auto

lemma dom_map_adjust: "dom (map_of (map_adjust k f m)) = dom (map_of m)"
  by (auto simp: map_of_map_adjust dom_def)

lemma map_has_dom: "map_has m k \<longleftrightarrow> k \<in> dom (map_of m)"
  by (auto simp: map_has_def)

lemma set_map_keys: "set (map_keys m) = dom (map_of m)"
  by (simp add: map_keys_def dom_map_of_conv_image_fst)

lemma set_set_add: "set (set_add x s) = insert x (set s)"
  by (auto simp: set_add_def)

lemma set_set_delete: "set (set_delete x s) = set s - {x}"
  by (simp add: set_delete_def)

lemma outgoing_nonempty_dom: "y \<in> set (outgoing g x) \<Longrightarrow> x \<in> dom (map_of (nodes g))"
  by (cases "map_of (nodes g) x") (auto simp: outgoing_def set_or_empty_def)

lemma incoming_nonempty_dom: "x \<in> set (incoming g y) \<Longrightarrow> y \<in> dom (map_of (incomingEdges g))"
  by (cases "map_of (incomingEdges g) y") (auto simp: incoming_def set_or_empty_def)

lemma lockstep_members:
  assumes "lockstep g" and "y \<in> set (outgoing g x)"
  shows "hasNode g x" and "hasNode g y" and "x \<in> set (incoming g y)"
proof -
  show xy: "x \<in> set (incoming g y)"
    using assms lockstep_sym by blast
  show "hasNode g x"
    using outgoing_nonempty_dom[OF assms(2)] by (simp add: hasNode_def map_has_dom)
  show "hasNode g y"
    using incoming_nonempty_dom[OF xy] lockstep_keys[OF assms(1)]
    by (simp add: hasNode_def map_has_dom)
qed

lemma lockstep_store_invariant:
  assumes "lockstep g"
  shows "store_invariant g"
  unfolding store_invariant_def
proof (intro conjI, goal_cases)
  case 1
  show ?case
    using lockstep_keys[OF assms] by (simp add: set_map_keys)
next
  case 2
  show ?case
  proof
    fix p assume p: "p \<in> set (edges g)"
    obtain k e where ke: "p = (k, e)" by (cases p)
    from lockstep_edge[OF assms] p ke obtain f
      where f: "k = edgeId f (to e)" "to e \<in> set (outgoing g f)" by blast
    from lockstep_members[OF assms f(2)] have "hasNode g f" "hasNode g (to e)"
      "f \<in> set (incoming g (to e))" by simp_all
    with f have "f \<in> set (map_keys (nodes g)) \<and> k = edgeId f (to e) \<and> hasNode g (to e) \<and>
        to e \<in> set (outgoing g f) \<and> f \<in> set (incoming g (to e))"
      by (simp add: set_map_keys hasNode_def map_has_dom)
    then show "case p of (k, e) \<Rightarrow> \<exists>f \<in> set (map_keys (nodes g)).
        k = edgeId f (to e) \<and> hasNode g (to e) \<and>
        to e \<in> set (outgoing g f) \<and> f \<in> set (incoming g (to e))"
      unfolding ke by (simp only: prod.case) (rule bexI[of _ f], simp_all)
  qed
next
  case 3
  show ?case
  proof (intro ballI)
    fix x y assume "y \<in> set (outgoing g x)"
    from lockstep_members[OF assms this]
    show "hasNode g y \<and> x \<in> set (incoming g y)" by simp
  qed
next
  case 4
  show ?case
  proof (intro ballI)
    fix y x assume "x \<in> set (incoming g y)"
    then have yx: "y \<in> set (outgoing g x)" using lockstep_sym[OF assms] by simp
    from lockstep_members[OF assms yx]
    show "hasNode g x \<and> y \<in> set (outgoing g x)" using yx by simp
  qed
qed

lemma lockstep_new_graph: "lockstep new_graph"
  by (simp add: lockstep_def new_graph_def outgoing_def incoming_def set_or_empty_def)

lemma lockstep_addNode:
  assumes "lockstep g"
  shows "lockstep (snd (addNode g n))"
proof (cases "map_has (nodes g) n")
  case True
  with assms show ?thesis by (simp add: addNode_def)
next
  case False
  note K = lockstep_keys[OF assms]
  with False have absent: "map_of (nodes g) n = None" "map_of (incomingEdges g) n = None"
    unfolding map_has_dom by auto
  let ?g = "snd (addNode g n)"
  have out: "outgoing ?g x = outgoing g x" for x
    using False absent by (simp add: addNode_def outgoing_def AList.update_conv' set_or_empty_def)
  have inc: "incoming ?g x = incoming g x" for x
    using False absent by (simp add: addNode_def incoming_def AList.update_conv' set_or_empty_def)
  have ed: "edges ?g = edges g"
    by (simp add: addNode_def)
  have "dom (map_of (nodes ?g)) = dom (map_of (incomingEdges ?g))"
    using False K by (simp add: addNode_def AList.update_conv')
  then show ?thesis
  proof (rule lockstepI)
    show "y \<in> set (outgoing ?g x) \<longleftrightarrow> x \<in> set (incoming ?g y)" for x y
      unfolding out inc by (rule lockstep_sym[OF assms])
    show "\<exists>f. k = edgeId f (to e) \<and> to e \<in> set (outgoing ?g f)"
      if "(k, e) \<in> set (edges ?g)" for k e
      using that unfolding out ed by (rule lockstep_edge[OF assms])
  qed
qed

lemma hasNode_addNode: "hasNode (snd (addNode g n)) x \<longleftrightarrow> x = n \<or> hasNode g x"
  by (auto simp: addNode_def hasNode_def map_has_def AList.update_conv')

lemma set_or_empty_adjust:
  "set_or_empty (map_of (map_adjust k h m) x) =
     (if x = k \<and> k \<in> dom (map_of m) then h (set_or_empty (map_of m k))
      else set_or_empty (map_of m x))"
  by (cases "map_of m k") (auto simp: map_of_map_adjust set_or_empty_def)

lemma set_or_empty_adjust_delete:
  "set_or_empty (map_of (map_adjust k (set_delete n) m) x) =
     (if x = k then set_delete n (set_or_empty (map_of m x)) else set_or_empty (map_of m x))"
  by (cases "map_of m k") (auto simp: map_of_map_adjust set_or_empty_def set_delete_def)

lemma set_update_subset: "set (AList.update k v m) \<subseteq> insert (k, v) (set m)"
  by (induction m) auto

lemma set_delete_alist: "set (AList.delete k m) = {p \<in> set m. fst p \<noteq> k}"
  by (induction m) auto

lemma lockstep_addEdge:
  assumes "lockstep g"
  shows "\<exists>g'. addEdge g f t ty = Inr g' \<and> lockstep g'"
proof -
  define g2 where "g2 = snd (addNode (snd (addNode g f)) t)"
  have L2: "lockstep g2"
    unfolding g2_def by (rule lockstep_addNode, rule lockstep_addNode, rule assms)
  have hf: "hasNode g2 f" and ht: "hasNode g2 t"
    by (simp_all add: g2_def hasNode_addNode)
  note K = lockstep_keys[OF L2] and S = lockstep_sym[OF L2] and E = lockstep_edge[OF L2]
  from hf ht K have df: "f \<in> dom (map_of (nodes g2))" and dt: "t \<in> dom (map_of (incomingEdges g2))"
    unfolding hasNode_def map_has_dom by auto
  define g3 where "g3 = g2\<lparr>nodes := map_adjust f (set_add t) (nodes g2),
       incomingEdges := map_adjust t (set_add f) (incomingEdges g2),
       edges := AList.update (edgeId f t) \<lparr>to = t, type = ty\<rparr> (edges g2)\<rparr>"
  have res: "addEdge g f t ty = Inr g3"
    using df dt unfolding addEdge_def g3_def Let_def map_has_dom g2_def[symmetric] by simp
  have out: "set (outgoing g3 x) = (if x = f then insert t (set (outgoing g2 x)) else set (outgoing g2 x))" for x
    using df by (simp add: g3_def outgoing_def set_or_empty_adjust set_set_add)
  have inc: "set (incoming g3 y) = (if y = t then insert f (set (incoming g2 y)) else set (incoming g2 y))" for y
    using dt by (simp add: g3_def incoming_def set_or_empty_adjust set_set_add)
  have K3: "dom (map_of (nodes g3)) = dom (map_of (incomingEdges g3))"
    using K by (simp add: g3_def dom_map_adjust)
  have S3: "y \<in> set (outgoing g3 x) \<longleftrightarrow> x \<in> set (incoming g3 y)" for x y
    unfolding out inc using S by auto
  have E3: "\<exists>f'. k = edgeId f' (to e) \<and> to e \<in> set (outgoing g3 f')"
    if "(k, e) \<in> set (edges g3)" for k e
  proof -
    from that have "(k, e) = (edgeId f t, \<lparr>to = t, type = ty\<rparr>) \<or> (k, e) \<in> set (edges g2)"
      using set_update_subset[of "edgeId f t" "\<lparr>to = t, type = ty\<rparr>" "edges g2"]
      by (auto simp: g3_def)
    then show ?thesis
    proof
      assume ke: "(k, e) = (edgeId f t, \<lparr>to = t, type = ty\<rparr>)"
      then have "k = edgeId f (to e)" "to e = t" by simp_all
      then have "k = edgeId f (to e) \<and> to e \<in> set (outgoing g3 f)" by (simp add: out)
      then show ?thesis ..
    next
      assume "(k, e) \<in> set (edges g2)"
      from E[OF this] obtain f' where f': "k = edgeId f' (to e)"
        and m: "to e \<in> set (outgoing g2 f')" by blast
      from m have "to e \<in> set (outgoing g3 f')" unfolding out by (cases "f' = f") simp_all
      with f' show ?thesis by blast
    qed
  qed
  have "lockstep g3"
    using K3 S3 E3 by (rule lockstepI)
  with res show ?thesis by blast
qed

lemma edgeId_inject: "edgeId f t = edgeId f t' \<longleftrightarrow> t = t'"
  by (simp add: edgeId_def)

lemma lockstep_removeEdge:
  assumes "lockstep g"
  shows "lockstep (snd (removeEdge g f t))"
proof (cases "map_has (edges g) (edgeId f t)")
  case False
  with assms show ?thesis by (simp add: removeEdge_def)
next
  case True
  note K = lockstep_keys[OF assms] and S = lockstep_sym[OF assms] and E = lockstep_edge[OF assms]
  define g' where "g' = snd (removeEdge g f t)"
  have out: "set (outgoing g' x) = (if x = f then set (outgoing g x) - {t} else set (outgoing g x))" for x
    using True by (simp add: g'_def removeEdge_def outgoing_def set_or_empty_adjust_delete set_set_delete)
  have inc: "set (incoming g' y) = (if y = t then set (incoming g y) - {f} else set (incoming g y))" for y
    using True by (simp add: g'_def removeEdge_def incoming_def set_or_empty_adjust_delete set_set_delete)
  have ed: "set (edges g') = {p \<in> set (edges g). fst p \<noteq> edgeId f t}"
    using True by (simp add: g'_def removeEdge_def set_delete_alist)
  have K': "dom (map_of (nodes g')) = dom (map_of (incomingEdges g'))"
    using True K by (simp add: g'_def removeEdge_def dom_map_adjust)
  have S': "y \<in> set (outgoing g' x) \<longleftrightarrow> x \<in> set (incoming g' y)" for x y
    unfolding out inc using S by auto
  have E': "\<exists>f'. k = edgeId f' (to e) \<and> to e \<in> set (outgoing g' f')"
    if "(k, e) \<in> set (edges g')" for k e
  proof -
    from that have mem: "(k, e) \<in> set (edges g)" and ne: "k \<noteq> edgeId f t"
      unfolding ed by auto
    from E[OF mem] obtain f' where f': "k = edgeId f' (to e)" and m: "to e \<in> set (outgoing g f')"
      by blast
    from ne f' have "\<not> (f' = f \<and> to e = t)" by blast
    with m have "to e \<in> set (outgoing g' f')" unfolding out by (cases "f' = f") simp_all
    with f' show ?thesis by blast
  qed
  have "lockstep g'"
    using K' S' E' by (rule lockstepI)
  then show ?thesis by (simp add: g'_def)
qed

lemma drop_outgoing_fields:
  "nodes (drop_outgoing n d g) = nodes g"
  "set (edges (drop_outgoing n d g)) = {p \<in> set (edges g). fst p \<noteq> edgeId n d}"
  "dom (map_of (incomingEdges (drop_outgoing n d g))) = dom (map_of (incomingEdges g))"
  "set (incoming (drop_outgoing n d g) y) =
      (if y = d then set (incoming g y) - {n} else set (incoming g y))"
  by (simp_all add: drop_outgoing_def incoming_def set_or_empty_adjust_delete set_set_delete
        set_delete_alist dom_map_adjust)

lemma drop_incoming_fields:
  "incomingEdges (drop_incoming n d g) = incomingEdges g"
  "set (edges (drop_incoming n d g)) = {p \<in> set (edges g). fst p \<noteq> edgeId d n}"
  "dom (map_of (nodes (drop_incoming n d g))) = dom (map_of (nodes g))"
  "set (outgoing (drop_incoming n d g) x) =
      (if x = d then set (outgoing g x) - {n} else set (outgoing g x))"
  by (simp_all add: drop_incoming_def outgoing_def set_or_empty_adjust_delete set_set_delete
        set_delete_alist dom_map_adjust)

lemma fold_drop_outgoing:
  "nodes (fold (drop_outgoing n) ds g) = nodes g"
  "set (edges (fold (drop_outgoing n) ds g)) = {p \<in> set (edges g). fst p \<notin> edgeId n ` set ds}"
  "dom (map_of (incomingEdges (fold (drop_outgoing n) ds g))) = dom (map_of (incomingEdges g))"
  "set (incoming (fold (drop_outgoing n) ds g) y) =
     (if y \<in> set ds then set (incoming g y) - {n} else set (incoming g y))"
proof (induction ds arbitrary: g)
  case Nil
  { case 1 show ?case by simp }
  { case 2 show ?case by simp }
  { case 3 show ?case by simp }
  { case 4 show ?case by simp }
next
  case (Cons d ds)
  { case 1 show ?case by (simp add: Cons.IH(1) drop_outgoing_fields) }
  { case 2 show ?case by (auto simp: Cons.IH(2) drop_outgoing_fields) }
  { case 3 show ?case by (simp add: Cons.IH(3) drop_outgoing_fields) }
  { case 4 show ?case by (auto simp: Cons.IH(4) drop_outgoing_fields) }
qed

lemma fold_drop_incoming:
  "incomingEdges (fold (drop_incoming n) ds g) = incomingEdges g"
  "set (edges (fold (drop_incoming n) ds g)) = {p \<in> set (edges g). fst p \<notin> (\<lambda>d. edgeId d n) ` set ds}"
  "dom (map_of (nodes (fold (drop_incoming n) ds g))) = dom (map_of (nodes g))"
  "set (outgoing (fold (drop_incoming n) ds g) x) =
     (if x \<in> set ds then set (outgoing g x) - {n} else set (outgoing g x))"
proof (induction ds arbitrary: g)
  case Nil
  { case 1 show ?case by simp }
  { case 2 show ?case by simp }
  { case 3 show ?case by simp }
  { case 4 show ?case by simp }
next
  case (Cons d ds)
  { case 1 show ?case by (simp add: Cons.IH(1) drop_incoming_fields) }
  { case 2 show ?case by (auto simp: Cons.IH(2) drop_incoming_fields) }
  { case 3 show ?case by (simp add: Cons.IH(3) drop_incoming_fields) }
  { case 4 show ?case by (auto simp: Cons.IH(4) drop_incoming_fields) }
qed

lemma removeNode_absent: "\<not> map_has (nodes g) n \<Longrightarrow> removeNode g n = (False, g)"
  by (simp add: removeNode_def)

lemma set_or_empty_delete:
  "set_or_empty (map_of (AList.delete n m) x) = (if x = n then [] else set_or_empty (map_of m x))"
  by (simp add: AList.delete_conv' set_or_empty_def)

lemma lockstep_removeNode:
  assumes "lockstep g"
  shows "lockstep (snd (removeNode g n))"
proof (cases "map_has (nodes g) n")
  case False
  with assms show ?thesis by (simp add: removeNode_absent)
next
  case True
  note K = lockstep_keys[OF assms] and S = lockstep_sym[OF assms] and E = lockstep_edge[OF assms]
  define deps where "deps = outgoing g n"
  define g1 where "g1 = fold (drop_outgoing n) deps g"
  define dependents where "dependents = incoming g1 n"
  define g2 where "g2 = fold (drop_incoming n) dependents g1"
  define g' where "g' = g2\<lparr>nodes := AList.delete n (nodes g2),
                            incomingEdges := AList.delete n (incomingEdges g2)\<rparr>"
  have res: "snd (removeNode g n) = g'"
    using True
    by (simp add: removeNode_def Let_def g'_def g2_def dependents_def g1_def deps_def
        outgoing_def incoming_def)
  have inc1: "set (incoming g1 y) = set (incoming g y) - {n}" for y
    unfolding g1_def fold_drop_outgoing(4) deps_def using S[of y n] by auto
  have dependents: "set dependents = set (incoming g n) - {n}"
    unfolding dependents_def by (rule inc1)
  have out1: "outgoing g1 x = outgoing g x" for x
    by (simp add: outgoing_def g1_def fold_drop_outgoing(1))
  have out2: "set (outgoing g2 x) = set (outgoing g x) - {n}" if "x \<noteq> n" for x
    unfolding g2_def fold_drop_incoming(4) dependents out1 using S[of n x] that by auto
  have out: "set (outgoing g' x) = (if x = n then {} else set (outgoing g x) - {n})" for x
    using out2[of x] by (simp add: g'_def outgoing_def set_or_empty_delete)
  have inc2: "incoming g2 y = incoming g1 y" for y
    by (simp add: incoming_def g2_def fold_drop_incoming(1))
  have inc: "set (incoming g' y) = (if y = n then {} else set (incoming g y) - {n})" for y
    using inc1[of y] inc2[of y] by (simp add: g'_def incoming_def set_or_empty_delete)
  have ed: "set (edges g') = {p \<in> set (edges g).
      fst p \<notin> edgeId n ` set deps \<and> fst p \<notin> (\<lambda>d. edgeId d n) ` set dependents}"
    by (auto simp: g'_def g2_def g1_def fold_drop_incoming(2) fold_drop_outgoing(2))
  have K': "dom (map_of (nodes g')) = dom (map_of (incomingEdges g'))"
    using K
    by (simp add: g'_def g2_def g1_def AList.delete_conv' fold_drop_incoming(1,3)
        fold_drop_outgoing(1,3))
  have S': "y \<in> set (outgoing g' x) \<longleftrightarrow> x \<in> set (incoming g' y)" for x y
    unfolding out inc using S by auto
  have E': "\<exists>f'. k = edgeId f' (to e) \<and> to e \<in> set (outgoing g' f')"
    if "(k, e) \<in> set (edges g')" for k e
  proof -
    from that have mem: "(k, e) \<in> set (edges g)"
      and n1: "k \<notin> edgeId n ` set deps" and n2: "k \<notin> (\<lambda>d. edgeId d n) ` set dependents"
      unfolding ed by auto
    from E[OF mem] obtain f' where f': "k = edgeId f' (to e)" and m: "to e \<in> set (outgoing g f')"
      by blast
    have "f' \<noteq> n"
    proof
      assume "f' = n"
      with m have "to e \<in> set deps" by (simp add: deps_def)
      with f' \<open>f' = n\<close> n1 show False by blast
    qed
    moreover have "to e \<noteq> n"
    proof
      assume "to e = n"
      with m S have "f' \<in> set (incoming g n)" by simp
      with \<open>f' \<noteq> n\<close> have "f' \<in> set dependents" by (simp add: dependents)
      with f' \<open>to e = n\<close> n2 show False by blast
    qed
    ultimately have "to e \<in> set (outgoing g' f')" using m by (simp add: out)
    with f' show ?thesis by blast
  qed
  have "lockstep g'"
    using K' S' E' by (rule lockstepI)
  then show ?thesis by (simp add: res)
qed

lemma lockstep_perform:
  assumes "lockstep g"
  shows "\<exists>g'. perform c g = Inr g' \<and> lockstep g'"
proof (cases c)
  case (AddNode n)
  then show ?thesis using lockstep_addNode[OF assms] by simp
next
  case (AddEdge f t ty)
  then show ?thesis using lockstep_addEdge[OF assms] by simp
next
  case (RemoveEdge f t)
  then show ?thesis using lockstep_removeEdge[OF assms] by simp
next
  case (RemoveNode n)
  then show ?thesis using lockstep_removeNode[OF assms] by simp
qed

lemma lockstep_perform_all:
  "lockstep g \<Longrightarrow> \<exists>g'. perform_all cs g = Inr g' \<and> lockstep g'"
proof (induction cs arbitrary: g)
  case Nil
  then show ?case by simp
next
  case (Cons c cs)
  from lockstep_perform[OF Cons.prems] obtain g1 where g1: "perform c g = Inr g1" "lockstep g1"
    by blast
  from Cons.IH[OF g1(2)] g1(1) show ?case by simp
qed

lemma removeNode_not_hasNode: "\<not> hasNode (snd (removeNode g n)) n"
proof (cases "map_has (nodes g) n")
  case True
  then show ?thesis
    by (simp add: removeNode_def Let_def hasNode_def map_has_def AList.delete_conv')
next
  case False
  then show ?thesis by (simp add: removeNode_absent hasNode_def)
qed

lemma example_calls:
  "perform_all [AddEdge ''A'' ''B'' ''t'', AddEdge ''B'' ''C'' ''u'', RemoveEdge ''A'' ''B'']
     new_graph =
   Inr \<lparr>nodes = [(''A'', []), (''B'', [''C'']), (''C'', [])],
        incomingEdges = [(''A'', []), (''B'', []), (''C'', [''B''])],
        edges = [(''B->C'', \<lparr>to = ''C'', type = ''u''\<rparr>)]\<rparr>"
  by code_simp

text \<open>
  C1. Whatever sequence of \<^verbatim>\<open>addNode\<close>, \<^verbatim>\<open>addEdge\<close>, \<^verbatim>\<open>removeEdge\<close> and \<^verbatim>\<open>removeNode\<close>
  calls is made on a new store, no call throws and the store then satisfies the
  invariant: the endpoints of every edge are present nodes, every edge is recorded in
  the outgoing set of its source and in the incoming set of its target, the two
  adjacency indices mirror each other, and every member of an adjacency set is a
  present node. As the sequence is arbitrary, this holds after each call. A node that
  is removed next is absent afterwards and the invariant still holds, so nothing
  mentions it.
\<close>

theorem store_invariant_after_calls:
  "\<exists>g. perform_all cs new_graph = Inr g \<and> store_invariant g \<and>
       (\<forall>n. \<not> hasNode (snd (removeNode g n)) n \<and> store_invariant (snd (removeNode g n)))"
proof -
  from lockstep_perform_all[OF lockstep_new_graph, of cs]
  obtain g where g: "perform_all cs new_graph = Inr g" "lockstep g" by blast
  have "store_invariant g"
    using g(2) by (rule lockstep_store_invariant)
  moreover have "store_invariant (snd (removeNode g n))" for n
    using g(2) by (intro lockstep_store_invariant lockstep_removeNode)
  ultimately show ?thesis
    using g(1) removeNode_not_hasNode by blast
qed

theorem store_invariant_after_calls_witness:
  "perform_all [AddEdge ''A'' ''B'' ''t'', AddEdge ''B'' ''C'' ''u'', RemoveEdge ''A'' ''B'']
     new_graph =
   Inr \<lparr>nodes = [(''A'', []), (''B'', [''C'']), (''C'', [])],
        incomingEdges = [(''A'', []), (''B'', []), (''C'', [''B''])],
        edges = [(''B->C'', \<lparr>to = ''C'', type = ''u''\<rparr>)]\<rparr> \<and>
   store_invariant \<lparr>nodes = [(''A'', []), (''B'', [''C'']), (''C'', [])],
        incomingEdges = [(''A'', []), (''B'', []), (''C'', [''B''])],
        edges = [(''B->C'', \<lparr>to = ''C'', type = ''u''\<rparr>)]\<rparr>"
  using store_invariant_after_calls
    [of "[AddEdge ''A'' ''B'' ''t'', AddEdge ''B'' ''C'' ''u'', RemoveEdge ''A'' ''B'']"]
  unfolding example_calls by simp

text \<open>
  C10. \<^verbatim>\<open>removeNode\<close> returns false exactly when the node is absent, \<^verbatim>\<open>removeEdge\<close>
  returns false exactly when the edge table has no entry under the key of the pair, and
  in both cases the store that is returned is the store that was passed: node set,
  both adjacency indices and the edge table are untouched.
\<close>

theorem remove_false_leaves_store:
  "(fst (removeNode g n) \<longleftrightarrow> hasNode g n) \<and>
   (\<not> fst (removeNode g n) \<longrightarrow> snd (removeNode g n) = g) \<and>
   (fst (removeEdge g f t) \<longleftrightarrow> map_has (edges g) (edgeId f t)) \<and>
   (\<not> fst (removeEdge g f t) \<longrightarrow> snd (removeEdge g f t) = g)"
  by (simp add: removeNode_def removeEdge_def hasNode_def Let_def)

theorem remove_false_leaves_store_witness:
  "\<not> fst (removeNode \<lparr>nodes = [(''A'', [''B'']), (''B'', [])],
                       incomingEdges = [(''A'', []), (''B'', [''A''])],
                       edges = [(''A->B'', \<lparr>to = ''B'', type = ''t''\<rparr>)]\<rparr> ''C'') \<and>
   snd (removeNode \<lparr>nodes = [(''A'', [''B'']), (''B'', [])],
                       incomingEdges = [(''A'', []), (''B'', [''A''])],
                       edges = [(''A->B'', \<lparr>to = ''B'', type = ''t''\<rparr>)]\<rparr> ''C'') =
     \<lparr>nodes = [(''A'', [''B'']), (''B'', [])],
      incomingEdges = [(''A'', []), (''B'', [''A''])],
      edges = [(''A->B'', \<lparr>to = ''B'', type = ''t''\<rparr>)]\<rparr> \<and>
   \<not> fst (removeEdge \<lparr>nodes = [(''A'', [''B'']), (''B'', [])],
                       incomingEdges = [(''A'', []), (''B'', [''A''])],
                       edges = [(''A->B'', \<lparr>to = ''B'', type = ''t''\<rparr>)]\<rparr> ''B'' ''A'') \<and>
   snd (removeEdge \<lparr>nodes = [(''A'', [''B'']), (''B'', [])],
                       incomingEdges = [(''A'', []), (''B'', [''A''])],
                       edges = [(''A->B'', \<lparr>to = ''B'', type = ''t''\<rparr>)]\<rparr> ''B'' ''A'') =
     \<lparr>nodes = [(''A'', [''B'']), (''B'', [])],
      incomingEdges = [(''A'', []), (''B'', [''A''])],
      edges = [(''A->B'', \<lparr>to = ''B'', type = ''t''\<rparr>)]\<rparr>"
  using remove_false_leaves_store
    [of "\<lparr>nodes = [(''A'', [''B'']), (''B'', [])],
         incomingEdges = [(''A'', []), (''B'', [''A''])],
         edges = [(''A->B'', \<lparr>to = ''B'', type = ''t''\<rparr>)]\<rparr>" "''C''" "''B''" "''A''"]
  by (simp add: hasNode_def map_has_def edgeId_def)

section \<open>Serialization\<close>

text \<open>
  \<^verbatim>\<open>serialize\<close> builds an object of three arrays of pairs and hands it to
  \<^verbatim>\<open>JSON.stringify\<close>; \<^verbatim>\<open>deserialize\<close> reads the object that \<^verbatim>\<open>JSON.parse\<close> returns. The
  two library functions are inverse to each other on strings, arrays and plain objects,
  so the document is modelled as the JSON value itself and the text layer is left out.

  \<^verbatim>\<open>new Map(entries)\<close> and \<^verbatim>\<open>new Set(values)\<close> insert one element after the other.
  \<^verbatim>\<open>deserialize\<close> looks the three fields up by name and takes every pair apart;
  \<open>None\<close> stands for every document that is not of the shape \<^verbatim>\<open>serialize\<close> writes,
  where the source either throws or builds maps over other kinds of values.
\<close>

datatype json = JString string | JArray "json list" | JObject "(string \<times> json) list"

definition entries_to_json :: "('v \<Rightarrow> json) \<Rightarrow> (string, 'v) js_map \<Rightarrow> json" where
  "entries_to_json val m = JArray (map (\<lambda>(k, v). JArray [JString k, val v]) m)"

definition set_to_json :: "node_id js_set \<Rightarrow> json" where
  "set_to_json s = JArray (map JString s)"

definition edge_to_json :: "edge \<Rightarrow> json" where
  "edge_to_json e = JObject [(''to'', JString (to e)), (''type'', JString (type e))]"

definition serialize :: "graph \<Rightarrow> json" where
  "serialize g =
     JObject [(''nodes'', entries_to_json set_to_json (nodes g)),
              (''incomingEdges'', entries_to_json set_to_json (incomingEdges g)),
              (''edges'', entries_to_json edge_to_json (edges g))]"

definition new_Map :: "('k \<times> 'v) list \<Rightarrow> ('k, 'v) js_map" where
  "new_Map entries = fold (\<lambda>(k, v). AList.update k v) entries []"

definition new_Set :: "'a list \<Rightarrow> 'a js_set" where
  "new_Set xs = fold set_add xs []"

fun string_of_json :: "json \<Rightarrow> string option" where
  "string_of_json (JString s) = Some s"
| "string_of_json _ = None"

fun those_map :: "('a \<Rightarrow> 'b option) \<Rightarrow> 'a list \<Rightarrow> 'b list option" where
  "those_map f [] = Some []"
| "those_map f (x # xs) =
     (case f x of None \<Rightarrow> None
      | Some y \<Rightarrow> (case those_map f xs of None \<Rightarrow> None | Some ys \<Rightarrow> Some (y # ys)))"

fun set_of_json :: "json \<Rightarrow> node_id js_set option" where
  "set_of_json (JArray xs) = map_option new_Set (those_map string_of_json xs)"
| "set_of_json _ = None"

fun edge_of_json :: "json \<Rightarrow> edge option" where
  "edge_of_json (JObject props) =
     (case (map_of props ''to'', map_of props ''type'') of
        (Some (JString t), Some (JString ty)) \<Rightarrow> Some \<lparr>to = t, type = ty\<rparr>
      | _ \<Rightarrow> None)"
| "edge_of_json _ = None"

fun entry_of_json :: "(json \<Rightarrow> 'v option) \<Rightarrow> json \<Rightarrow> (string \<times> 'v) option" where
  "entry_of_json val (JArray [JString k, v]) = map_option (Pair k) (val v)"
| "entry_of_json val _ = None"

fun entries_of_json :: "(json \<Rightarrow> 'v option) \<Rightarrow> json \<Rightarrow> (string \<times> 'v) list option" where
  "entries_of_json val (JArray xs) = those_map (entry_of_json val) xs"
| "entries_of_json val _ = None"

definition field_entries :: "(json \<Rightarrow> 'v option) \<Rightarrow> (string \<times> json) list \<Rightarrow> string \<Rightarrow>
    (string \<times> 'v) list option" where
  "field_entries val data name =
     (case map_of data name of None \<Rightarrow> None | Some j \<Rightarrow> entries_of_json val j)"

fun deserialize :: "json \<Rightarrow> graph option" where
  "deserialize (JObject data) =
     (case (field_entries set_of_json data ''nodes'',
            field_entries set_of_json data ''incomingEdges'',
            field_entries edge_of_json data ''edges'') of
        (Some n, Some i, Some e) \<Rightarrow>
          Some \<lparr>nodes = new_Map n, incomingEdges = new_Map i, edges = new_Map e\<rparr>
      | _ \<Rightarrow> None)"
| "deserialize _ = None"

definition well_formed :: "graph \<Rightarrow> bool" where
  "well_formed g \<longleftrightarrow>
     is_map (nodes g) \<and> is_map (incomingEdges g) \<and> is_map (edges g) \<and>
     (\<forall>(k, s) \<in> set (nodes g). distinct s) \<and>
     (\<forall>(k, s) \<in> set (incomingEdges g). distinct s)"

lemma fold_set_add: "distinct (acc @ xs) \<Longrightarrow> fold set_add xs acc = acc @ xs"
  by (induction xs arbitrary: acc) (auto simp: set_add_def)

lemma new_Set_distinct: "distinct xs \<Longrightarrow> new_Set xs = xs"
  using fold_set_add[of "[]" xs] by (simp add: new_Set_def)

lemma update_fresh: "k \<notin> fst ` set m \<Longrightarrow> AList.update k v m = m @ [(k, v)]"
  by (induction m) auto

lemma fold_update:
  "distinct (map fst (acc @ xs)) \<Longrightarrow> fold (\<lambda>(k, v). AList.update k v) xs acc = acc @ xs"
proof (induction xs arbitrary: acc)
  case Nil
  then show ?case by simp
next
  case (Cons x xs)
  obtain k v where x: "x = (k, v)" by (cases x)
  from Cons.prems have fresh: "k \<notin> fst ` set acc" by (auto simp: x)
  from Cons.prems have "distinct (map fst ((acc @ [(k, v)]) @ xs))" by (simp add: x)
  from Cons.IH[OF this] show ?case by (simp add: x update_fresh[OF fresh])
qed

lemma new_Map_is_map: "is_map m \<Longrightarrow> new_Map m = m"
  using fold_update[of "[]" m] by (simp add: new_Map_def is_map_def)

lemma those_map_string: "those_map string_of_json (map JString s) = Some s"
  by (induction s) simp_all

lemma set_of_json_roundtrip: "distinct s \<Longrightarrow> set_of_json (set_to_json s) = Some s"
  by (simp add: set_to_json_def those_map_string new_Set_distinct)

lemma edge_of_json_roundtrip: "edge_of_json (edge_to_json e) = Some e"
  by (simp add: edge_to_json_def)

lemma entries_roundtrip:
  assumes "\<And>k v. (k, v) \<in> set m \<Longrightarrow> dec (enc v) = Some v"
  shows "entries_of_json dec (entries_to_json enc m) = Some m"
proof -
  have "those_map (entry_of_json dec) (map (\<lambda>(k, v). JArray [JString k, enc v]) m) = Some m"
    using assms
  proof (induction m)
    case Nil
    show ?case by simp
  next
    case (Cons p m)
    obtain k v where p: "p = (k, v)" by (cases p)
    have "dec (enc v) = Some v" using Cons.prems[of k v] by (simp add: p)
    moreover have "those_map (entry_of_json dec) (map (\<lambda>(k, v). JArray [JString k, enc v]) m) = Some m"
    proof (rule Cons.IH)
      fix k' v' assume "(k', v') \<in> set m"
      then show "dec (enc v') = Some v'" using Cons.prems[of k' v'] by simp
    qed
    ultimately show ?case by (simp add: p)
  qed
  then show ?thesis by (simp add: entries_to_json_def)
qed


definition sets_distinct :: "('k, 'a js_set) js_map \<Rightarrow> bool" where
  "sets_distinct m \<longleftrightarrow> (\<forall>(k, s) \<in> set m. distinct s)"

lemma well_formed_alt:
  "well_formed g \<longleftrightarrow> is_map (nodes g) \<and> is_map (incomingEdges g) \<and> is_map (edges g) \<and>
     sets_distinct (nodes g) \<and> sets_distinct (incomingEdges g)"
  by (simp add: well_formed_def sets_distinct_def)

lemma is_map_update: "is_map m \<Longrightarrow> is_map (AList.update k v m)"
  by (simp add: is_map_def AList.distinct_update)

lemma is_map_delete: "is_map m \<Longrightarrow> is_map (AList.delete k m)"
  by (simp add: is_map_def AList.distinct_delete)

lemma map_fst_adjust: "map fst (map_adjust k f m) = map fst m"
  by (induction m) (auto simp: map_adjust_def)

lemma is_map_adjust: "is_map m \<Longrightarrow> is_map (map_adjust k f m)"
  by (simp add: is_map_def map_fst_adjust)

lemma sets_distinct_update:
  "sets_distinct m \<Longrightarrow> distinct s \<Longrightarrow> sets_distinct (AList.update k s m)"
  unfolding sets_distinct_def using set_update_subset[of k s m] by auto

lemma sets_distinct_delete: "sets_distinct m \<Longrightarrow> sets_distinct (AList.delete k m)"
  unfolding sets_distinct_def by (auto simp: set_delete_alist)

lemma sets_distinct_adjust:
  assumes "sets_distinct m" and "\<And>s. distinct s \<Longrightarrow> distinct (f s)"
  shows "sets_distinct (map_adjust k f m)"
  using assms unfolding sets_distinct_def map_adjust_def
  by (induction m) (auto split: if_splits)

lemma distinct_set_add: "distinct s \<Longrightarrow> distinct (set_add x s)"
  by (simp add: set_add_def)

lemma distinct_set_delete: "distinct s \<Longrightarrow> distinct (set_delete x s)"
  by (simp add: set_delete_def distinct_removeAll)

lemma well_formed_new_graph: "well_formed new_graph"
  by (simp add: well_formed_alt new_graph_def is_map_def sets_distinct_def)

lemma well_formed_addNode: "well_formed g \<Longrightarrow> well_formed (snd (addNode g n))"
  by (simp add: addNode_def well_formed_alt is_map_update sets_distinct_update)

lemma well_formed_addEdge: "well_formed g \<Longrightarrow> addEdge g f t ty = Inr g' \<Longrightarrow> well_formed g'"
proof -
  assume wf: "well_formed g" and res: "addEdge g f t ty = Inr g'"
  have "well_formed (snd (addNode (snd (addNode g f)) t))"
    by (intro well_formed_addNode wf)
  with res show ?thesis
    by (auto simp: addEdge_def Let_def well_formed_alt is_map_update is_map_adjust
        sets_distinct_adjust distinct_set_add split: if_splits)
qed

lemma well_formed_removeEdge: "well_formed g \<Longrightarrow> well_formed (snd (removeEdge g f t))"
  by (simp add: removeEdge_def Let_def well_formed_alt is_map_delete is_map_adjust
      sets_distinct_adjust distinct_set_delete)

lemma well_formed_drop_outgoing: "well_formed g \<Longrightarrow> well_formed (drop_outgoing n d g)"
  by (simp add: drop_outgoing_def well_formed_alt is_map_delete is_map_adjust
      sets_distinct_adjust distinct_set_delete)

lemma well_formed_drop_incoming: "well_formed g \<Longrightarrow> well_formed (drop_incoming n d g)"
  by (simp add: drop_incoming_def well_formed_alt is_map_delete is_map_adjust
      sets_distinct_adjust distinct_set_delete)

lemma well_formed_fold:
  assumes "\<And>d g. well_formed g \<Longrightarrow> well_formed (f d g)"
  shows "well_formed g \<Longrightarrow> well_formed (fold f ds g)"
  by (induction ds arbitrary: g) (simp_all add: assms)

lemma well_formed_removeNode: "well_formed g \<Longrightarrow> well_formed (snd (removeNode g n))"
proof -
  assume wf: "well_formed g"
  have step: "well_formed h \<Longrightarrow>
      well_formed (h\<lparr>nodes := AList.delete n (nodes h),
                     incomingEdges := AList.delete n (incomingEdges h)\<rparr>)" for h
    by (simp add: well_formed_alt is_map_delete sets_distinct_delete)
  show ?thesis
    using wf
    by (simp add: removeNode_def Let_def step well_formed_fold well_formed_drop_outgoing
        well_formed_drop_incoming)
qed

lemma well_formed_perform: "well_formed g \<Longrightarrow> perform c g = Inr g' \<Longrightarrow> well_formed g'"
  by (cases c)
    (auto simp: well_formed_addNode well_formed_removeEdge well_formed_removeNode
      dest: well_formed_addEdge)

lemma well_formed_perform_all:
  "well_formed g \<Longrightarrow> perform_all cs g = Inr g' \<Longrightarrow> well_formed g'"
proof (induction cs arbitrary: g)
  case Nil
  then show ?case by simp
next
  case (Cons c cs)
  then show ?case
    by (cases "perform c g") (auto dest: well_formed_perform)
qed

lemma well_formed_after_calls: "perform_all cs new_graph = Inr g \<Longrightarrow> well_formed g"
  using well_formed_perform_all[OF well_formed_new_graph] .

text \<open>
  C9. Reading back what \<^verbatim>\<open>serialize\<close> wrote gives the store that was written: the same
  nodes, the same edge table with the same types, and the same outgoing and incoming
  sets, all in the same order. The hypothesis is the one every \<^verbatim>\<open>Map\<close> and \<^verbatim>\<open>Set\<close>
  satisfies by construction (\<open>well_formed_after_calls\<close> shows it for the stores the
  four mutators build).
\<close>

theorem deserialize_serialize:
  assumes "well_formed g"
  shows "deserialize (serialize g) = Some g"
proof -
  have n: "entries_of_json set_of_json (entries_to_json set_to_json (nodes g)) = Some (nodes g)"
    using assms by (intro entries_roundtrip set_of_json_roundtrip) (auto simp: well_formed_def)
  have i: "entries_of_json set_of_json (entries_to_json set_to_json (incomingEdges g)) =
      Some (incomingEdges g)"
    using assms by (intro entries_roundtrip set_of_json_roundtrip) (auto simp: well_formed_def)
  have e: "entries_of_json edge_of_json (entries_to_json edge_to_json (edges g)) = Some (edges g)"
    by (intro entries_roundtrip edge_of_json_roundtrip)
  show ?thesis
    using assms
    by (simp add: serialize_def field_entries_def n i e new_Map_is_map well_formed_def)
qed

theorem deserialize_serialize_witness:
  "well_formed
     \<lparr>nodes = [(''A'', [''B'', ''C'']), (''B'', []), (''C'', [])],
      incomingEdges = [(''A'', []), (''B'', [''A'']), (''C'', [''A''])],
      edges = [(''A->B'', \<lparr>to = ''B'', type = ''t1''\<rparr>), (''A->C'', \<lparr>to = ''C'', type = ''t2''\<rparr>)]\<rparr> \<and>
   deserialize (serialize
     \<lparr>nodes = [(''A'', [''B'', ''C'']), (''B'', []), (''C'', [])],
      incomingEdges = [(''A'', []), (''B'', [''A'']), (''C'', [''A''])],
      edges = [(''A->B'', \<lparr>to = ''B'', type = ''t1''\<rparr>), (''A->C'', \<lparr>to = ''C'', type = ''t2''\<rparr>)]\<rparr>) =
   Some
     \<lparr>nodes = [(''A'', [''B'', ''C'']), (''B'', []), (''C'', [])],
      incomingEdges = [(''A'', []), (''B'', [''A'']), (''C'', [''A''])],
      edges = [(''A->B'', \<lparr>to = ''B'', type = ''t1''\<rparr>), (''A->C'', \<lparr>to = ''C'', type = ''t2''\<rparr>)]\<rparr>"
proof -
  have wf: "well_formed
     \<lparr>nodes = [(''A'', [''B'', ''C'']), (''B'', []), (''C'', [])],
      incomingEdges = [(''A'', []), (''B'', [''A'']), (''C'', [''A''])],
      edges = [(''A->B'', \<lparr>to = ''B'', type = ''t1''\<rparr>), (''A->C'', \<lparr>to = ''C'', type = ''t2''\<rparr>)]\<rparr>"
    by (simp add: well_formed_def is_map_def)
  from deserialize_serialize[OF wf] wf show ?thesis by simp
qed

section \<open>Traversal\<close>

text \<open>
  The options of the readers. \<^verbatim>\<open>direction\<close> selects the outgoing index when it is
  \<^verbatim>\<open>'outgoing'\<close> and the incoming index otherwise; \<^verbatim>\<open>strategy\<close> pops from the back when
  it is \<^verbatim>\<open>'dfs'\<close> and from the front otherwise. \<^verbatim>\<open>edgeTypes\<close> is absent, a string or an
  array, and is normalised by
  \<^verbatim>\<open>edgeTypes ? (Array.isArray(edgeTypes) ? edgeTypes : [edgeTypes]) : null\<close>:
  the empty string is falsy and so counts as absent, the empty array does not.
\<close>

datatype direction = Outgoing | Incoming
datatype strategy = Bfs | Dfs
datatype edge_types = Unset | Single string | Several "string list"

fun types_of :: "edge_types \<Rightarrow> string list option" where
  "types_of Unset = None"
| "types_of (Single s) = (if s = [] then None else Some [s])"
| "types_of (Several ss) = Some ss"

definition adjacencyMap :: "graph \<Rightarrow> direction \<Rightarrow> (node_id, node_id js_set) js_map" where
  "adjacencyMap g direction = (if direction = Outgoing then nodes g else incomingEdges g)"

definition neighbors :: "graph \<Rightarrow> direction \<Rightarrow> node_id \<Rightarrow> node_id list" where
  "neighbors g direction nodeId = set_or_empty (map_of (adjacencyMap g direction) nodeId)"

definition edge_between :: "graph \<Rightarrow> direction \<Rightarrow> node_id \<Rightarrow> node_id \<Rightarrow> edge option" where
  "edge_between g direction nodeId neighborId =
     map_of (edges g)
       (if direction = Outgoing then edgeId nodeId neighborId else edgeId neighborId nodeId)"

definition type_allowed :: "string list option \<Rightarrow> edge \<Rightarrow> bool" where
  "type_allowed types e = (case types of None \<Rightarrow> True | Some ts \<Rightarrow> type e \<in> set ts)"

definition follows :: "graph \<Rightarrow> string list option \<Rightarrow> direction \<Rightarrow> node_id \<Rightarrow> node_id \<Rightarrow> bool" where
  "follows g types direction nodeId neighborId =
     (case edge_between g direction nodeId neighborId of
        None \<Rightarrow> False
      | Some e \<Rightarrow> type_allowed types e)"

text \<open>
  The edges a reader follows: an entry of the adjacency set in the chosen direction whose
  edge is in the edge table and passes the type filter.
\<close>

definition matching_edge :: "graph \<Rightarrow> string list option \<Rightarrow> direction \<Rightarrow> (node_id \<times> node_id) set" where
  "matching_edge g types direction =
     {(x, y). y \<in> set (neighbors g direction x) \<and> follows g types direction x y}"

definition enqueue_neighbors ::
  "graph \<Rightarrow> string list option \<Rightarrow> direction \<Rightarrow> node_id \<Rightarrow> node_id js_set \<Rightarrow> node_id list \<Rightarrow> node_id list" where
  "enqueue_neighbors g types direction currentNodeId visited queue =
     fold (\<lambda>neighborId q.
             if follows g types direction currentNodeId neighborId \<and> neighborId \<notin> set visited
             then q @ [neighborId] else q)
          (neighbors g direction currentNodeId) queue"

definition dequeue :: "strategy \<Rightarrow> node_id list \<Rightarrow> node_id \<times> node_id list" where
  "dequeue strategy queue =
     (if strategy = Dfs then (last queue, butlast queue) else (hd queue, tl queue))"

definition reach_bound :: "graph \<Rightarrow> direction \<Rightarrow> node_id set" where
  "reach_bound g direction = set (concat (map snd (adjacencyMap g direction)))"

lemma neighbors_bound: "set (neighbors g direction n) \<subseteq> reach_bound g direction"
proof (cases "map_of (adjacencyMap g direction) n")
  case None
  then show ?thesis by (simp add: neighbors_def set_or_empty_def)
next
  case (Some s)
  then have "(n, s) \<in> set (adjacencyMap g direction)" by (rule map_of_SomeD)
  then have "set s \<subseteq> reach_bound g direction"
    unfolding reach_bound_def by force
  with Some show ?thesis by (simp add: neighbors_def set_or_empty_def)
qed

lemma set_enqueue_neighbors:
  "set (enqueue_neighbors g types direction n visited queue)
     \<subseteq> set queue \<union> reach_bound g direction"
proof -
  have "set (fold (\<lambda>neighborId q.
             if follows g types direction n neighborId \<and> neighborId \<notin> set visited
             then q @ [neighborId] else q) ns queue) \<subseteq> set queue \<union> set ns" for ns
  proof (induction ns arbitrary: queue)
    case Nil
    show ?case by simp
  next
    case (Cons a ns)
    show ?case
      using Cons.IH[of "queue @ [a]"] Cons.IH[of queue] by (auto split: if_splits)
  qed
  then show ?thesis
    unfolding enqueue_neighbors_def using neighbors_bound[of g direction n] by blast
qed

lemma dequeue_nonempty:
  assumes "queue \<noteq> []" and "dequeue strategy queue = (c, rest)"
  shows "c \<in> set queue" and "set rest \<subseteq> set queue" and "length rest < length queue"
  using assms
  by (auto simp: dequeue_def split: if_splits dest: in_set_butlastD list.set_sel(2))

function traverse_loop ::
  "graph \<Rightarrow> string list option \<Rightarrow> direction \<Rightarrow> strategy \<Rightarrow>
   node_id list \<Rightarrow> node_id js_set \<Rightarrow> node_id list \<Rightarrow> node_id list" where
  "traverse_loop g types direction strategy queue visited result =
     (if queue = [] then result
      else
        let (currentNodeId, rest) = dequeue strategy queue
        in if currentNodeId \<in> set visited
           then traverse_loop g types direction strategy rest visited result
           else
             let visited' = set_add currentNodeId visited
             in traverse_loop g types direction strategy
                  (enqueue_neighbors g types direction currentNodeId visited' rest)
                  visited' (result @ [currentNodeId]))"
  by pat_completeness auto
termination
proof (relation "measures
    [\<lambda>(g, types, direction, strategy, queue, visited, result).
        card ((reach_bound g direction \<union> set queue) - set visited),
     \<lambda>(g, types, direction, strategy, queue, visited, result). length queue]", goal_cases)
  case 1
  show ?case by simp
next
  case (2 g types direction strategy queue visited result x c rest)
  then have d: "dequeue strategy queue = (c, rest)" by simp
  note dq = dequeue_nonempty[OF \<open>queue \<noteq> []\<close> d]
  have "card ((reach_bound g direction \<union> set rest) - set visited)
      \<le> card ((reach_bound g direction \<union> set queue) - set visited)"
    using dq(2) by (intro card_mono) (auto simp: reach_bound_def)
  with dq(3) show ?case by auto
next
  case (3 g types direction strategy queue visited result x c rest visited')
  then have d: "dequeue strategy queue = (c, rest)" and c: "c \<notin> set visited"
    and v: "visited' = set_add c visited" by simp_all
  note dq = dequeue_nonempty[OF \<open>queue \<noteq> []\<close> d]
  let ?q = "enqueue_neighbors g types direction c visited' rest"
  have "(reach_bound g direction \<union> set ?q) - set visited'
      \<subset> (reach_bound g direction \<union> set queue) - set visited"
    using set_enqueue_neighbors[of g types direction c visited' rest] dq(1,2) c
    by (auto simp: v set_set_add)
  then have "card ((reach_bound g direction \<union> set ?q) - set visited')
      < card ((reach_bound g direction \<union> set queue) - set visited)"
    by (intro psubset_card_mono) (auto simp: reach_bound_def)
  then show ?case by simp
qed

declare traverse_loop.simps [simp del]

definition traverse ::
  "graph \<Rightarrow> node_id \<Rightarrow> edge_types \<Rightarrow> direction \<Rightarrow> strategy \<Rightarrow> node_id list" where
  "traverse g startNodeId edgeTypes direction strategy =
     (if \<not> map_has (nodes g) startNodeId then []
      else traverse_loop g (types_of edgeTypes) direction strategy [startNodeId] [] [])"

lemma traverse_loop_distinct:
  "distinct result \<Longrightarrow> set result = set visited \<Longrightarrow>
   distinct (traverse_loop g types direction strategy queue visited result)"
proof (induction g types direction strategy queue visited result rule: traverse_loop.induct)
  case (1 g types direction strategy queue visited result)
  show ?case
  proof (cases "queue = []")
    case True
    with "1.prems" show ?thesis by (subst traverse_loop.simps) simp
  next
    case False
    obtain c rest where d: "dequeue strategy queue = (c, rest)"
      by (cases "dequeue strategy queue")
    show ?thesis
    proof (cases "c \<in> set visited")
      case True
      with False d "1.IH"(1)[OF False d[symmetric] refl True "1.prems"] show ?thesis
        by (subst traverse_loop.simps) simp
    next
      case notin: False
      have "distinct (result @ [c])" "set (result @ [c]) = set (set_add c visited)"
        using "1.prems" notin by (simp_all add: set_set_add)
      from "1.IH"(2)[OF False d[symmetric] refl notin refl this] False d notin show ?thesis
        by (subst traverse_loop.simps) (simp add: Let_def)
    qed
  qed
qed

lemma traverse_loop_extends:
  "\<exists>ys. traverse_loop g types direction strategy queue visited result = result @ ys"
proof (induction g types direction strategy queue visited result rule: traverse_loop.induct)
  case (1 g types direction strategy queue visited result)
  show ?case
  proof (cases "queue = []")
    case True
    then show ?thesis by (subst traverse_loop.simps) simp
  next
    case False
    obtain c rest where d: "dequeue strategy queue = (c, rest)"
      by (cases "dequeue strategy queue")
    show ?thesis
    proof (cases "c \<in> set visited")
      case True
      with False d "1.IH"(1)[OF False d[symmetric] refl True] show ?thesis
        by (subst traverse_loop.simps) simp
    next
      case notin: False
      from "1.IH"(2)[OF False d[symmetric] refl notin refl] obtain ys where
        "traverse_loop g types direction strategy
           (enqueue_neighbors g types direction c (set_add c visited) rest)
           (set_add c visited) (result @ [c]) = (result @ [c]) @ ys" by blast
      with False d notin show ?thesis
        by (subst traverse_loop.simps) (simp add: Let_def)
    qed
  qed
qed

lemma set_enqueue_neighbors_eq:
  "set (enqueue_neighbors g types direction n visited queue) =
     set queue \<union> {y. (n, y) \<in> matching_edge g types direction \<and> y \<notin> set visited}"
proof -
  have "set (fold (\<lambda>neighborId q.
             if follows g types direction n neighborId \<and> neighborId \<notin> set visited
             then q @ [neighborId] else q) ns queue) =
        set queue \<union> {y \<in> set ns. follows g types direction n y \<and> y \<notin> set visited}" for ns
    by (induction ns arbitrary: queue) auto
  then show ?thesis
    unfolding enqueue_neighbors_def matching_edge_def by auto
qed

lemma dequeue_set:
  assumes "queue \<noteq> []" and "dequeue strategy queue = (c, rest)"
  shows "set queue = insert c (set rest)"
proof (cases "strategy = Dfs")
  case True
  with assms have "c = last queue" "rest = butlast queue" by (simp_all add: dequeue_def)
  with assms(1) have "queue = rest @ [c]" by simp
  then show ?thesis by (metis Un_insert_right append_Nil2 list.simps(15) set_append)
next
  case False
  with assms have "c = hd queue" "rest = tl queue" by (simp_all add: dequeue_def)
  with assms(1) have "queue = c # rest" by simp
  then show ?thesis by (metis list.simps(15))
qed

lemma traverse_loop_reaches:
  assumes "\<forall>x \<in> set visited. \<forall>y. (x, y) \<in> matching_edge g types direction \<longrightarrow>
             y \<in> set visited \<union> set queue"
    and "set result = set visited"
  shows "set visited \<union> set queue \<subseteq> set (traverse_loop g types direction strategy queue visited result) \<and>
         (\<forall>x \<in> set (traverse_loop g types direction strategy queue visited result).
            \<forall>y. (x, y) \<in> matching_edge g types direction \<longrightarrow>
              y \<in> set (traverse_loop g types direction strategy queue visited result)) \<and>
         set (traverse_loop g types direction strategy queue visited result)
           \<subseteq> set visited \<union> (matching_edge g types direction)\<^sup>* `` set queue"
  using assms
proof (induction g types direction strategy queue visited result rule: traverse_loop.induct)
  case (1 g types direction strategy queue visited result)
  let ?E = "matching_edge g types direction"
  show ?case
  proof (cases "queue = []")
    case True
    with "1.prems" show ?thesis by (subst (1 2 3 4) traverse_loop.simps) auto
  next
    case False
    obtain c rest where d: "dequeue strategy queue = (c, rest)"
      by (cases "dequeue strategy queue")
    note q = dequeue_set[OF False d]
    show ?thesis
    proof (cases "c \<in> set visited")
      case True
      let ?R = "traverse_loop g types direction strategy rest visited result"
      have eq: "traverse_loop g types direction strategy queue visited result = ?R"
        using False d True by (subst traverse_loop.simps) simp
      have closed: "\<forall>x \<in> set visited. \<forall>y. (x, y) \<in> ?E \<longrightarrow> y \<in> set visited \<union> set rest"
        using "1.prems"(1) q True by auto
      from "1.IH"(1)[OF False d[symmetric] refl True closed "1.prems"(2)]
      have ih: "set visited \<union> set rest \<subseteq> set ?R"
        "\<forall>x \<in> set ?R. \<forall>y. (x, y) \<in> ?E \<longrightarrow> y \<in> set ?R"
        "set ?R \<subseteq> set visited \<union> ?E\<^sup>* `` set rest" by simp_all
      have "set visited \<union> set queue \<subseteq> set ?R" using ih(1) q True by auto
      moreover have "set ?R \<subseteq> set visited \<union> ?E\<^sup>* `` set queue" using ih(3) q by auto
      ultimately show ?thesis unfolding eq using ih(2) by simp
    next
      case notin: False
      let ?v = "set_add c visited"
      let ?q = "enqueue_neighbors g types direction c ?v rest"
      let ?R = "traverse_loop g types direction strategy ?q ?v (result @ [c])"
      have eq: "traverse_loop g types direction strategy queue visited result = ?R"
        using False d notin by (subst traverse_loop.simps) (simp add: Let_def)
      have sq: "set ?q = set rest \<union> {y. (c, y) \<in> ?E \<and> y \<notin> set ?v}"
        by (rule set_enqueue_neighbors_eq)
      have sv: "set ?v = insert c (set visited)" by (simp add: set_set_add)
      have closed: "\<forall>x \<in> set ?v. \<forall>y. (x, y) \<in> ?E \<longrightarrow> y \<in> set ?v \<union> set ?q"
        using "1.prems"(1) q unfolding sq sv by auto
      have res: "set (result @ [c]) = set ?v" using "1.prems"(2) sv by simp
      from "1.IH"(2)[OF False d[symmetric] refl notin refl closed res]
      have ih: "set ?v \<union> set ?q \<subseteq> set ?R"
        "\<forall>x \<in> set ?R. \<forall>y. (x, y) \<in> ?E \<longrightarrow> y \<in> set ?R"
        "set ?R \<subseteq> set ?v \<union> ?E\<^sup>* `` set ?q" by simp_all
      have "set visited \<union> set queue \<subseteq> set ?R" using ih(1) q unfolding sq sv by auto
      moreover have "set ?R \<subseteq> set visited \<union> ?E\<^sup>* `` set queue"
      proof
        fix x assume "x \<in> set ?R"
        with ih(3) consider "x \<in> set visited" | "x = c" | "x \<in> ?E\<^sup>* `` set ?q"
          unfolding sv by auto
        then show "x \<in> set visited \<union> ?E\<^sup>* `` set queue"
        proof cases
          case 1
          then show ?thesis by simp
        next
          case 2
          then show ?thesis using q by auto
        next
          case 3
          then obtain z where z: "z \<in> set ?q" "(z, x) \<in> ?E\<^sup>*" by auto
          from z(1) consider "z \<in> set rest" | "(c, z) \<in> ?E" unfolding sq by auto
          then show ?thesis
          proof cases
            case 1
            with z(2) q show ?thesis by auto
          next
            case 2
            from 2 z(2) have "(c, x) \<in> ?E\<^sup>*" by (rule converse_rtrancl_into_rtrancl)
            with q show ?thesis by auto
          qed
        qed
      qed
      ultimately show ?thesis unfolding eq using ih(2) by simp
    qed
  qed
qed

lemma count_list_distinct:
  "distinct xs \<Longrightarrow> count_list xs x = (if x \<in> set xs then 1 else 0)"
  by (induction xs) auto

lemma traverse_set:
  assumes "hasNode g startNodeId"
  shows "set (traverse g startNodeId edgeTypes direction strategy) =
           (matching_edge g (types_of edgeTypes) direction)\<^sup>* `` {startNodeId}"
proof -
  let ?E = "matching_edge g (types_of edgeTypes) direction"
  let ?R = "traverse_loop g (types_of edgeTypes) direction strategy [startNodeId] [] []"
  have t: "traverse g startNodeId edgeTypes direction strategy = ?R"
    using assms by (simp add: traverse_def hasNode_def)
  from traverse_loop_reaches[of "[]" g "types_of edgeTypes" direction "[startNodeId]" "[]" strategy]
  have r: "startNodeId \<in> set ?R" "\<forall>x \<in> set ?R. \<forall>y. (x, y) \<in> ?E \<longrightarrow> y \<in> set ?R"
    "set ?R \<subseteq> ?E\<^sup>* `` {startNodeId}" by simp_all
  have "x \<in> set ?R" if "(startNodeId, x) \<in> ?E\<^sup>*" for x
    using that by (induction rule: rtrancl_induct) (use r in auto)
  with r(3) show ?thesis unfolding t by auto
qed


lemma traverse_starts_at_start:
  assumes "hasNode g startNodeId"
  shows "\<exists>ys. traverse g startNodeId edgeTypes direction strategy = startNodeId # ys"
proof -
  have d: "dequeue strategy [startNodeId] = (startNodeId, [])"
    by (simp add: dequeue_def)
  obtain ys where "traverse_loop g (types_of edgeTypes) direction strategy
      (enqueue_neighbors g (types_of edgeTypes) direction startNodeId (set_add startNodeId []) [])
      (set_add startNodeId []) ([] @ [startNodeId]) = ([] @ [startNodeId]) @ ys"
    using traverse_loop_extends by blast
  then show ?thesis
    using assms
    by (simp add: traverse_def hasNode_def traverse_loop.simps[of _ _ _ _ "[startNodeId]"] d
        Let_def)
qed


definition diamond :: graph where
  "diamond =
     \<lparr>nodes = [(''A'', [''B'', ''C'']), (''B'', [''D'']), (''D'', []), (''C'', [''D''])],
      incomingEdges = [(''A'', []), (''B'', [''A'']), (''D'', [''B'', ''C'']), (''C'', [''A''])],
      edges = [(''A->B'', \<lparr>to = ''B'', type = ''t''\<rparr>), (''B->D'', \<lparr>to = ''D'', type = ''t''\<rparr>),
               (''A->C'', \<lparr>to = ''C'', type = ''t''\<rparr>), (''C->D'', \<lparr>to = ''D'', type = ''t''\<rparr>)]\<rparr>"

lemma diamond_calls:
  "perform_all [AddEdge ''A'' ''B'' ''t'', AddEdge ''B'' ''D'' ''t'',
                AddEdge ''A'' ''C'' ''t'', AddEdge ''C'' ''D'' ''t''] new_graph = Inr diamond"
  by code_simp

lemma diamond_bfs: "traverse diamond ''A'' Unset Outgoing Bfs = [''A'', ''B'', ''C'', ''D'']"
  by code_simp

lemma diamond_dfs: "traverse diamond ''A'' Unset Outgoing Dfs = [''A'', ''C'', ''D'', ''B'']"
  by code_simp

lemma diamond_absent: "traverse diamond ''Z'' Unset Outgoing Bfs = []"
  by code_simp

lemma diamond_reach: "(''A'', ''D'') \<in> (matching_edge diamond (types_of Unset) Outgoing)\<^sup>*"
proof -
  have "(''A'', ''B'') \<in> matching_edge diamond (types_of Unset) Outgoing"
    by (simp add: matching_edge_def neighbors_def adjacencyMap_def diamond_def set_or_empty_def
        follows_def edge_between_def edgeId_def type_allowed_def)
  moreover have "(''B'', ''D'') \<in> matching_edge diamond (types_of Unset) Outgoing"
    by (simp add: matching_edge_def neighbors_def adjacencyMap_def diamond_def set_or_empty_def
        follows_def edge_between_def edgeId_def type_allowed_def)
  ultimately show ?thesis by (meson rtrancl.simps)
qed

text \<open>
  C6. For a present start node, under either strategy, in either direction and under
  every type filter, \<^verbatim>\<open>traverse\<close> returns a sequence that begins with the start node and
  in which a node occurs once when it can be reached from the start node over matching
  edges, and does not occur otherwise; so no node is returned twice and none that the
  traversal visits is missing. For an absent start node the sequence is empty. \<^verbatim>\<open>bfs\<close>
  takes the next node from the front of the queue and \<^verbatim>\<open>dfs\<close> from the back.
\<close>

theorem traverse_visits_once:
  "distinct (traverse g startNodeId edgeTypes direction strategy) \<and>
   (hasNode g startNodeId \<longrightarrow>
      traverse g startNodeId edgeTypes direction strategy \<noteq> [] \<and>
      hd (traverse g startNodeId edgeTypes direction strategy) = startNodeId \<and>
      (\<forall>x. count_list (traverse g startNodeId edgeTypes direction strategy) x =
         (if (startNodeId, x) \<in> (matching_edge g (types_of edgeTypes) direction)\<^sup>*
          then 1 else 0))) \<and>
   (\<not> hasNode g startNodeId \<longrightarrow> traverse g startNodeId edgeTypes direction strategy = []) \<and>
   dequeue Bfs (n # queue) = (n, queue) \<and> dequeue Dfs (queue @ [n]) = (n, queue)"
proof (intro conjI impI allI)
  show d: "distinct (traverse g startNodeId edgeTypes direction strategy)"
    by (simp add: traverse_def traverse_loop_distinct)
  show "dequeue Bfs (n # queue) = (n, queue)" "dequeue Dfs (queue @ [n]) = (n, queue)"
    by (simp_all add: dequeue_def)
  {
    assume h: "hasNode g startNodeId"
    from traverse_starts_at_start[OF h] obtain ys where
      "traverse g startNodeId edgeTypes direction strategy = startNodeId # ys" by blast
    then show "traverse g startNodeId edgeTypes direction strategy \<noteq> []"
      and "hd (traverse g startNodeId edgeTypes direction strategy) = startNodeId" by simp_all
    fix x
    show "count_list (traverse g startNodeId edgeTypes direction strategy) x =
         (if (startNodeId, x) \<in> (matching_edge g (types_of edgeTypes) direction)\<^sup>*
          then 1 else 0)"
      using traverse_set[OF h, of edgeTypes direction strategy]
      by (auto simp: count_list_distinct[OF d])
  }
  assume "\<not> hasNode g startNodeId"
  then show "traverse g startNodeId edgeTypes direction strategy = []"
    by (simp add: traverse_def hasNode_def)
qed

theorem traverse_visits_once_witness:
  "hasNode diamond ''A'' \<and>
   (''A'', ''D'') \<in> (matching_edge diamond (types_of Unset) Outgoing)\<^sup>* \<and>
   traverse diamond ''A'' Unset Outgoing Bfs = [''A'', ''B'', ''C'', ''D''] \<and>
   count_list [''A'', ''B'', ''C'', ''D''] ''D'' = 1 \<and>
   traverse diamond ''A'' Unset Outgoing Dfs = [''A'', ''C'', ''D'', ''B''] \<and>
   count_list [''A'', ''C'', ''D'', ''B''] ''D'' = 1 \<and>
   \<not> hasNode diamond ''Z'' \<and> traverse diamond ''Z'' Unset Outgoing Bfs = []"
proof -
  have h: "hasNode diamond ''A''" and z: "\<not> hasNode diamond ''Z''"
    by (simp_all add: hasNode_def map_has_def diamond_def)
  from traverse_visits_once[of diamond "''A''" Unset Outgoing Bfs] h diamond_reach
  have "count_list [''A'', ''B'', ''C'', ''D''] ''D'' = 1"
    unfolding diamond_bfs by auto
  moreover from traverse_visits_once[of diamond "''A''" Unset Outgoing Dfs] h diamond_reach
  have "count_list [''A'', ''C'', ''D'', ''B''] ''D'' = 1"
    unfolding diamond_dfs by auto
  moreover from traverse_visits_once[of diamond "''Z''" Unset Outgoing Bfs] z
  have "traverse diamond ''Z'' Unset Outgoing Bfs = []" by blast
  ultimately show ?thesis using h z diamond_reach diamond_bfs diamond_dfs by blast
qed

section \<open>Tree building\<close>

text \<open>
  \<^verbatim>\<open>_buildTreeNode\<close> marks its node, then walks the neighbours in order; a neighbour is
  skipped when its edge is missing from the edge table, when its type is filtered out,
  or when it is already marked; otherwise the recursive call builds its subtree, marking
  more nodes in the one \<^verbatim>\<open>visited\<close> set all calls share.
\<close>

datatype tree = TreeNode (node: node_id) (children: "tree list")

function (sequential) buildTreeNode ::
    "graph \<Rightarrow> string list option \<Rightarrow> direction \<Rightarrow> node_id \<Rightarrow> node_id js_set \<Rightarrow> tree \<times> node_id js_set"
  and buildChildren ::
    "graph \<Rightarrow> string list option \<Rightarrow> direction \<Rightarrow> node_id \<Rightarrow> node_id list \<Rightarrow> node_id js_set \<Rightarrow>
       tree list \<times> node_id js_set"
where
  "buildTreeNode g edgeTypes direction nodeId visited =
     (let (cs, visited') =
            buildChildren g edgeTypes direction nodeId (neighbors g direction nodeId)
              (set_add nodeId visited)
      in (TreeNode nodeId cs, visited'))"
| "buildChildren g edgeTypes direction nodeId [] visited = ([], visited)"
| "buildChildren g edgeTypes direction nodeId (neighborId # rest) visited =
     (if \<not> follows g edgeTypes direction nodeId neighborId
      then buildChildren g edgeTypes direction nodeId rest visited
      else if neighborId \<in> set visited
      then buildChildren g edgeTypes direction nodeId rest visited
      else
        let (childNode, visited') = buildTreeNode g edgeTypes direction neighborId visited;
            (cs, visited'') = buildChildren g edgeTypes direction nodeId rest visited'
        in (childNode # cs, visited''))"
  by pat_completeness auto

lemma visited_grows_dom:
  "buildTreeNode_buildChildren_dom (Inl (g, edgeTypes, direction, nodeId, visited)) \<Longrightarrow>
     set visited \<subseteq> set (snd (buildTreeNode g edgeTypes direction nodeId visited))"
  "buildTreeNode_buildChildren_dom (Inr (g, edgeTypes, direction, nodeId, ns, visited)) \<Longrightarrow>
     set visited \<subseteq> set (snd (buildChildren g edgeTypes direction nodeId ns visited))"
proof (induction g edgeTypes direction nodeId visited and g edgeTypes direction nodeId ns visited
    rule: buildTreeNode_buildChildren.pinduct)
  case (1 g edgeTypes direction nodeId visited)
  then show ?case
    by (auto simp: buildTreeNode.psimps set_set_add split: prod.splits)
next
  case (2 g edgeTypes direction nodeId visited)
  then show ?case by (simp add: buildChildren.psimps)
next
  case (3 g edgeTypes direction nodeId neighborId rest visited)
  show ?case
  proof (cases "follows g edgeTypes direction nodeId neighborId \<and> neighborId \<notin> set visited")
    case False
    with 3 show ?thesis by (auto simp: buildChildren.psimps)
  next
    case True
    obtain c v' where b: "buildTreeNode g edgeTypes direction neighborId visited = (c, v')"
      by (cases "buildTreeNode g edgeTypes direction neighborId visited")
    from True 3(4) b have "set visited \<subseteq> set v'" by simp
    moreover from True 3(5)[OF _ _ refl b[symmetric]]
    have "set v' \<subseteq> set (snd (buildChildren g edgeTypes direction nodeId rest v'))" by simp
    ultimately show ?thesis
      using True 3(1) b by (auto simp: buildChildren.psimps split: prod.splits)
  qed
qed

termination buildTreeNode
proof (relation "measures
    [\<lambda>x. case x of
        Inl (g, edgeTypes, direction, nodeId, visited) \<Rightarrow>
          card (reach_bound g direction - insert nodeId (set visited))
      | Inr (g, edgeTypes, direction, nodeId, ns, visited) \<Rightarrow>
          card ((reach_bound g direction \<union> set ns) - set visited),
     \<lambda>x. case x of Inl _ \<Rightarrow> 1 | Inr _ \<Rightarrow> 0,
     \<lambda>x. case x of Inl _ \<Rightarrow> 0 | Inr (g, edgeTypes, direction, nodeId, ns, visited) \<Rightarrow> length ns]",
    goal_cases)
  case 1
  show ?case by simp
next
  case (2 g edgeTypes direction nodeId visited)
  have "reach_bound g direction \<union> set (neighbors g direction nodeId) = reach_bound g direction"
    using neighbors_bound[of g direction nodeId] by blast
  then show ?case by (simp add: set_set_add)
next
  case (3 g edgeTypes direction nodeId neighborId rest visited)
  have "card ((reach_bound g direction \<union> set rest) - set visited)
      \<le> card ((reach_bound g direction \<union> set (neighborId # rest)) - set visited)"
    by (intro card_mono) (auto simp: reach_bound_def)
  then show ?case by auto
next
  case (4 g edgeTypes direction nodeId neighborId rest visited)
  have "card ((reach_bound g direction \<union> set rest) - set visited)
      \<le> card ((reach_bound g direction \<union> set (neighborId # rest)) - set visited)"
    by (intro card_mono) (auto simp: reach_bound_def)
  then show ?case by auto
next
  case (5 g edgeTypes direction nodeId neighborId rest visited)
  then have "reach_bound g direction - insert neighborId (set visited)
      \<subset> (reach_bound g direction \<union> set (neighborId # rest)) - set visited"
    by auto
  then have "card (reach_bound g direction - insert neighborId (set visited))
      < card ((reach_bound g direction \<union> set (neighborId # rest)) - set visited)"
    by (intro psubset_card_mono) (auto simp: reach_bound_def)
  then show ?case by simp
next
  case (6 g edgeTypes direction nodeId neighborId rest visited x xa y)
  then have "set visited \<subseteq> set y"
    using visited_grows_dom(1)[of g edgeTypes direction neighborId visited] by (metis snd_conv)
  then have "card ((reach_bound g direction \<union> set rest) - set y)
      \<le> card ((reach_bound g direction \<union> set (neighborId # rest)) - set visited)"
    by (intro card_mono) (auto simp: reach_bound_def)
  then show ?case by auto
qed

declare buildTreeNode.simps [simp del]

definition getTree :: "graph \<Rightarrow> node_id \<Rightarrow> edge_types \<Rightarrow> direction \<Rightarrow> tree option" where
  "getTree g startNodeId edgeTypes direction =
     (if \<not> map_has (nodes g) startNodeId then None
      else Some (fst (buildTreeNode g (types_of edgeTypes) direction startNodeId [])))"

fun tree_nodes :: "tree \<Rightarrow> node_id list" where
  "tree_nodes (TreeNode n cs) = n # concat (map tree_nodes cs)"

definition forest_nodes :: "tree list \<Rightarrow> node_id list" where
  "forest_nodes ts = concat (map tree_nodes ts)"

definition built :: "(node_id \<times> node_id) set \<Rightarrow> node_id js_set \<Rightarrow> node_id list \<Rightarrow> node_id js_set \<Rightarrow> bool" where
  "built E visited new visited' \<longleftrightarrow>
     set visited' = set visited \<union> set new \<and> distinct new \<and> set new \<inter> set visited = {} \<and>
     (\<forall>x \<in> set new. \<forall>y. (x, y) \<in> E \<longrightarrow> y \<in> set visited')"

lemma built_empty: "built E visited [] visited"
  by (simp add: built_def)

lemma built_append:
  assumes "built E v xs v'" and "built E v' ys v''"
  shows "built E v (xs @ ys) v''"
  using assms unfolding built_def by (auto; blast)

lemma built_root:
  assumes "n \<notin> set v" and "built E (set_add n v) xs v'"
    and "\<And>y. (n, y) \<in> E \<Longrightarrow> y \<in> set v'"
  shows "built E v (n # xs) v'"
  using assms unfolding built_def by (auto simp: set_set_add)

lemma buildTree_correct:
  "nodeId \<notin> set visited \<Longrightarrow>
     built (matching_edge g edgeTypes direction) visited
       (tree_nodes (fst (buildTreeNode g edgeTypes direction nodeId visited)))
       (snd (buildTreeNode g edgeTypes direction nodeId visited)) \<and>
     node (fst (buildTreeNode g edgeTypes direction nodeId visited)) = nodeId \<and>
     (\<forall>x \<in> set (tree_nodes (fst (buildTreeNode g edgeTypes direction nodeId visited))).
        (nodeId, x) \<in> (matching_edge g edgeTypes direction)\<^sup>*)"
  "built (matching_edge g edgeTypes direction) visited
       (forest_nodes (fst (buildChildren g edgeTypes direction nodeId ns visited)))
       (snd (buildChildren g edgeTypes direction nodeId ns visited)) \<and>
     (\<forall>m \<in> set ns. follows g edgeTypes direction nodeId m \<longrightarrow>
        m \<in> set (snd (buildChildren g edgeTypes direction nodeId ns visited))) \<and>
     (\<forall>x \<in> set (forest_nodes (fst (buildChildren g edgeTypes direction nodeId ns visited))).
        \<exists>m \<in> set ns. follows g edgeTypes direction nodeId m \<and>
          (m, x) \<in> (matching_edge g edgeTypes direction)\<^sup>*)"
proof (induction g edgeTypes direction nodeId visited and g edgeTypes direction nodeId ns visited
    rule: buildTreeNode_buildChildren.induct)
  case (1 g edgeTypes direction nodeId visited)
  let ?E = "matching_edge g edgeTypes direction"
  obtain cs v' where c: "buildChildren g edgeTypes direction nodeId
      (neighbors g direction nodeId) (set_add nodeId visited) = (cs, v')"
    by (cases "buildChildren g edgeTypes direction nodeId
      (neighbors g direction nodeId) (set_add nodeId visited)")
  have r: "buildTreeNode g edgeTypes direction nodeId visited = (TreeNode nodeId cs, v')"
    by (subst buildTreeNode.simps) (simp add: c)
  from "1.IH" c have b: "built ?E (set_add nodeId visited) (forest_nodes cs) v'"
    and all: "\<And>m. m \<in> set (neighbors g direction nodeId) \<Longrightarrow>
        follows g edgeTypes direction nodeId m \<Longrightarrow> m \<in> set v'"
    and from_child: "\<And>x. x \<in> set (forest_nodes cs) \<Longrightarrow>
        \<exists>m \<in> set (neighbors g direction nodeId). follows g edgeTypes direction nodeId m \<and>
          (m, x) \<in> ?E\<^sup>*"
    by auto
  have succ: "y \<in> set v'" if "(nodeId, y) \<in> ?E" for y
    using that all by (auto simp: matching_edge_def)
  have "built ?E visited (nodeId # forest_nodes cs) v'"
    using "1.prems" b succ by (rule built_root)
  moreover have "(nodeId, x) \<in> ?E\<^sup>*" if "x \<in> set (forest_nodes cs)" for x
  proof -
    from from_child[OF that] obtain m where m: "m \<in> set (neighbors g direction nodeId)"
      "follows g edgeTypes direction nodeId m" "(m, x) \<in> ?E\<^sup>*" by blast
    then have "(nodeId, m) \<in> ?E" by (simp add: matching_edge_def)
    then show ?thesis using m(3) by (rule converse_rtrancl_into_rtrancl)
  qed
  ultimately show ?case
    by (auto simp: r forest_nodes_def)
next
  case (2 g edgeTypes direction nodeId visited)
  show ?case by (simp add: forest_nodes_def built_empty)
next
  case (3 g edgeTypes direction nodeId neighborId rest visited)
  let ?E = "matching_edge g edgeTypes direction"
  show ?case
  proof (cases "follows g edgeTypes direction nodeId neighborId")
    case False
    with "3.IH"(1) show ?thesis by simp
  next
    case f: True
    show ?thesis
    proof (cases "neighborId \<in> set visited")
      case True
      from "3.IH"(2)[OF _ True] f have
        b: "built ?E visited
             (forest_nodes (fst (buildChildren g edgeTypes direction nodeId rest visited)))
             (snd (buildChildren g edgeTypes direction nodeId rest visited))"
        and rest: "\<forall>m \<in> set rest. follows g edgeTypes direction nodeId m \<longrightarrow>
             m \<in> set (snd (buildChildren g edgeTypes direction nodeId rest visited))"
        and src: "\<forall>x \<in> set (forest_nodes (fst (buildChildren g edgeTypes direction nodeId rest visited))).
            \<exists>m \<in> set rest. follows g edgeTypes direction nodeId m \<and> (m, x) \<in> ?E\<^sup>*"
        by simp_all
      from b True have "neighborId \<in> set (snd (buildChildren g edgeTypes direction nodeId rest visited))"
        by (auto simp: built_def)
      with b rest src f True show ?thesis by auto
    next
      case False
      obtain c v' where c: "buildTreeNode g edgeTypes direction neighborId visited = (c, v')"
        by (cases "buildTreeNode g edgeTypes direction neighborId visited")
      obtain cs v'' where cs: "buildChildren g edgeTypes direction nodeId rest v' = (cs, v'')"
        by (cases "buildChildren g edgeTypes direction nodeId rest v'")
      have r: "buildChildren g edgeTypes direction nodeId (neighborId # rest) visited =
          (c # cs, v'')"
        using f False c cs by simp
      from "3.IH"(3)[OF _ False False] f c have
        b1: "built ?E visited (tree_nodes c) v'" and root: "node c = neighborId"
        and src1: "\<forall>x \<in> set (tree_nodes c). (neighborId, x) \<in> ?E\<^sup>*"
        by simp_all
      from "3.IH"(4)[OF _ False c[symmetric] refl] f cs have
        b2: "built ?E v' (forest_nodes cs) v''"
        and rest: "\<forall>m \<in> set rest. follows g edgeTypes direction nodeId m \<longrightarrow> m \<in> set v''"
        and src2: "\<forall>x \<in> set (forest_nodes cs).
            \<exists>m \<in> set rest. follows g edgeTypes direction nodeId m \<and> (m, x) \<in> ?E\<^sup>*"
        by simp_all
      have b: "built ?E visited (forest_nodes (c # cs)) v''"
        using built_append[OF b1 b2] by (simp add: forest_nodes_def)
      have "neighborId \<in> set (tree_nodes c)"
        using root by (cases c) simp
      with b1 b2 have "neighborId \<in> set v''" by (auto simp: built_def)
      with b rest src1 src2 f show ?thesis
        unfolding r by (auto simp: forest_nodes_def)
    qed
  qed
qed

lemma built_closed:
  assumes "built E [] new v" and "s \<in> set new" and "(s, x) \<in> E\<^sup>*"
  shows "x \<in> set new"
  using assms(3)
proof (induction rule: rtrancl_induct)
  case base
  show ?case by (rule assms(2))
next
  case (step y z)
  with assms(1) show ?case by (auto simp: built_def)
qed


lemma diamond_tree:
  "getTree diamond ''A'' Unset Outgoing =
     Some (TreeNode ''A'' [TreeNode ''B'' [TreeNode ''D'' []], TreeNode ''C'' []])"
  by code_simp

text \<open>
  C8. \<^verbatim>\<open>getTree\<close> returns \<^verbatim>\<open>null\<close> for an absent start node. Otherwise it returns a
  tree rooted at the start node in which a node occurs once when it can be reached from
  the start node over matching edges (an adjacency entry in the chosen direction whose
  edge is in the edge table and passes the type filter), and does not occur otherwise.
\<close>

theorem getTree_reachable_once:
  "(\<not> hasNode g startNodeId \<longrightarrow> getTree g startNodeId edgeTypes direction = None) \<and>
   (hasNode g startNodeId \<longrightarrow>
      (\<exists>t. getTree g startNodeId edgeTypes direction = Some t \<and> node t = startNodeId \<and>
         (\<forall>x. count_list (tree_nodes t) x =
            (if (startNodeId, x) \<in> (matching_edge g (types_of edgeTypes) direction)\<^sup>*
             then 1 else 0))))"
proof (intro conjI impI)
  assume "\<not> hasNode g startNodeId"
  then show "getTree g startNodeId edgeTypes direction = None"
    by (simp add: getTree_def hasNode_def)
next
  assume h: "hasNode g startNodeId"
  let ?E = "matching_edge g (types_of edgeTypes) direction"
  let ?r = "buildTreeNode g (types_of edgeTypes) direction startNodeId []"
  have res: "getTree g startNodeId edgeTypes direction = Some (fst ?r)"
    using h by (simp add: getTree_def hasNode_def)
  from buildTree_correct(1)[of startNodeId "[]" g "types_of edgeTypes" direction]
  have b: "built ?E [] (tree_nodes (fst ?r)) (snd ?r)" and root: "node (fst ?r) = startNodeId"
    and sound: "\<And>x. x \<in> set (tree_nodes (fst ?r)) \<Longrightarrow> (startNodeId, x) \<in> ?E\<^sup>*"
    by simp_all
  have start: "startNodeId \<in> set (tree_nodes (fst ?r))"
    using root by (cases "fst ?r") simp
  have d: "distinct (tree_nodes (fst ?r))"
    using b by (simp add: built_def)
  have "count_list (tree_nodes (fst ?r)) x = (if (startNodeId, x) \<in> ?E\<^sup>* then 1 else 0)" for x
    using built_closed[OF b start, of x] sound[of x] by (auto simp: count_list_distinct[OF d])
  with res root show "\<exists>t. getTree g startNodeId edgeTypes direction = Some t \<and>
      node t = startNodeId \<and>
      (\<forall>x. count_list (tree_nodes t) x = (if (startNodeId, x) \<in> ?E\<^sup>* then 1 else 0))"
    by blast
qed


theorem getTree_reachable_once_witness:
  "hasNode diamond ''A'' \<and>
   (''A'', ''D'') \<in> (matching_edge diamond (types_of Unset) Outgoing)\<^sup>* \<and>
   getTree diamond ''A'' Unset Outgoing =
     Some (TreeNode ''A'' [TreeNode ''B'' [TreeNode ''D'' []], TreeNode ''C'' []]) \<and>
   count_list (tree_nodes (TreeNode ''A'' [TreeNode ''B'' [TreeNode ''D'' []], TreeNode ''C'' []]))
     ''D'' = 1 \<and>
   \<not> hasNode diamond ''Z'' \<and> getTree diamond ''Z'' Unset Outgoing = None"
proof -
  have h: "hasNode diamond ''A''" and z: "\<not> hasNode diamond ''Z''"
    by (simp_all add: hasNode_def map_has_def diamond_def)
  from getTree_reachable_once[of diamond "''A''" Unset Outgoing] h diamond_reach
  have "count_list (tree_nodes (TreeNode ''A'' [TreeNode ''B'' [TreeNode ''D'' []], TreeNode ''C'' []]))
     ''D'' = 1"
    unfolding diamond_tree by auto
  moreover from getTree_reachable_once[of diamond "''Z''" Unset Outgoing] z
  have "getTree diamond ''Z'' Unset Outgoing = None" by blast
  ultimately show ?thesis
    using h z diamond_reach diamond_tree by blast
qed

section \<open>Cycle detection\<close>

text \<open>
  Both detectors are depth-first searches over the outgoing index that keep a set of
  nodes on the current path (\<^verbatim>\<open>visiting\<close>) and a set of finished nodes (\<^verbatim>\<open>visited\<close>).
  The function for one node and the loop over its neighbours are mutually recursive and
  pass the sets along. \<^verbatim>\<open>hasCircularDependency\<close> starts a search at every key of
  \<^verbatim>\<open>nodes\<close> with the sets it has; \<^verbatim>\<open>findCircularDependency\<close> starts one at every key
  that is not finished, with a new \<^verbatim>\<open>visiting\<close> set and an empty path.
\<close>

type_synonym marks = "node_id js_set \<times> node_id js_set"

function (sequential) detectCycleUtil ::
    "graph \<Rightarrow> string list option \<Rightarrow> node_id \<Rightarrow> marks \<Rightarrow> bool \<times> marks"
  and detectNeighbors ::
    "graph \<Rightarrow> string list option \<Rightarrow> node_id \<Rightarrow> node_id list \<Rightarrow> marks \<Rightarrow> bool \<times> marks"
where
  "detectCycleUtil g edgeTypes nodeId (visiting, visited) =
     (case detectNeighbors g edgeTypes nodeId (neighbors g Outgoing nodeId)
             (set_add nodeId visiting, visited) of
        (True, m) \<Rightarrow> (True, m)
      | (False, (visiting', visited')) \<Rightarrow>
          (False, (set_delete nodeId visiting', set_add nodeId visited')))"
| "detectNeighbors g edgeTypes nodeId [] m = (False, m)"
| "detectNeighbors g edgeTypes nodeId (neighborId # rest) (visiting, visited) =
     (if follows g edgeTypes Outgoing nodeId neighborId then
        if neighborId \<in> set visiting then (True, (visiting, visited))
        else if neighborId \<notin> set visited then
          (case detectCycleUtil g edgeTypes neighborId (visiting, visited) of
             (True, m) \<Rightarrow> (True, m)
           | (False, m) \<Rightarrow> detectNeighbors g edgeTypes nodeId rest m)
        else detectNeighbors g edgeTypes nodeId rest (visiting, visited)
      else detectNeighbors g edgeTypes nodeId rest (visiting, visited))"
  by pat_completeness auto

definition marked :: "marks \<Rightarrow> node_id set" where
  "marked m = set (fst m) \<union> set (snd m)"

lemma marked_grows_dom:
  "detectCycleUtil_detectNeighbors_dom (Inl (g, edgeTypes, nodeId, m)) \<Longrightarrow>
     marked m \<subseteq> marked (snd (detectCycleUtil g edgeTypes nodeId m))"
  "detectCycleUtil_detectNeighbors_dom (Inr (g, edgeTypes, nodeId, ns, m)) \<Longrightarrow>
     marked m \<subseteq> marked (snd (detectNeighbors g edgeTypes nodeId ns m))"
proof (induction g edgeTypes nodeId m and g edgeTypes nodeId ns m
    rule: detectCycleUtil_detectNeighbors.pinduct)
  case (1 g edgeTypes nodeId visiting visited)
  then show ?case
    by (auto simp: detectCycleUtil.psimps marked_def set_set_add set_set_delete
        split: prod.splits bool.splits)
next
  case (2 g edgeTypes nodeId m)
  then show ?case by (simp add: detectNeighbors.psimps)
next
  case (3 g edgeTypes nodeId neighborId rest visiting visited)
  show ?case
  proof (cases "follows g edgeTypes Outgoing nodeId neighborId \<and> neighborId \<notin> set visiting
      \<and> neighborId \<notin> set visited")
    case False
    with 3 show ?thesis by (auto simp: detectNeighbors.psimps)
  next
    case True
    obtain b m' where r: "detectCycleUtil g edgeTypes neighborId (visiting, visited) = (b, m')"
      by (cases "detectCycleUtil g edgeTypes neighborId (visiting, visited)")
    from True 3(2) r have g1: "marked (visiting, visited) \<subseteq> marked m'" by simp
    show ?thesis
    proof (cases b)
      case True
      with \<open>follows g edgeTypes Outgoing nodeId neighborId \<and> neighborId \<notin> set visiting
      \<and> neighborId \<notin> set visited\<close> 3(1) r g1 show ?thesis
        by (simp add: detectNeighbors.psimps)
    next
      case False
      with True 3(3)[OF _ _ _ r[symmetric]] have "marked m' \<subseteq>
          marked (snd (detectNeighbors g edgeTypes nodeId rest m'))" by simp
      with g1 True False 3(1) r show ?thesis
        by (auto simp: detectNeighbors.psimps)
    qed
  qed
qed

termination detectCycleUtil
proof (relation "measures
    [\<lambda>x. case x of
        Inl (g, edgeTypes, nodeId, m) \<Rightarrow> card (reach_bound g Outgoing - insert nodeId (marked m))
      | Inr (g, edgeTypes, nodeId, ns, m) \<Rightarrow> card ((reach_bound g Outgoing \<union> set ns) - marked m),
     \<lambda>x. case x of Inl _ \<Rightarrow> 1 | Inr _ \<Rightarrow> 0,
     \<lambda>x. case x of Inl _ \<Rightarrow> 0 | Inr (g, edgeTypes, nodeId, ns, m) \<Rightarrow> length ns]",
    goal_cases)
  case 1
  show ?case by simp
next
  case (2 g edgeTypes nodeId visiting visited)
  have "reach_bound g Outgoing \<union> set (neighbors g Outgoing nodeId) = reach_bound g Outgoing"
    using neighbors_bound[of g Outgoing nodeId] by blast
  moreover have "marked (set_add nodeId visiting, visited) = insert nodeId (marked (visiting, visited))"
    by (simp add: marked_def set_set_add)
  ultimately show ?case by simp
next
  case (3 g edgeTypes nodeId neighborId rest visiting visited)
  then have "reach_bound g Outgoing - insert neighborId (marked (visiting, visited))
      \<subset> (reach_bound g Outgoing \<union> set (neighborId # rest)) - marked (visiting, visited)"
    by (auto simp: marked_def)
  then have "card (reach_bound g Outgoing - insert neighborId (marked (visiting, visited)))
      < card ((reach_bound g Outgoing \<union> set (neighborId # rest)) - marked (visiting, visited))"
    by (intro psubset_card_mono) (auto simp: reach_bound_def)
  then show ?case by simp
next
  case (4 g edgeTypes nodeId neighborId rest visiting visited x y)
  then have "marked (visiting, visited) \<subseteq> marked y"
    using marked_grows_dom(1)[of g edgeTypes neighborId "(visiting, visited)"] by (metis snd_conv)
  then have "card ((reach_bound g Outgoing \<union> set rest) - marked y)
      \<le> card ((reach_bound g Outgoing \<union> set (neighborId # rest)) - marked (visiting, visited))"
    by (intro card_mono) (auto simp: reach_bound_def)
  then show ?case by auto
next
  case (5 g edgeTypes nodeId neighborId rest visiting visited)
  have "card ((reach_bound g Outgoing \<union> set rest) - marked (visiting, visited))
      \<le> card ((reach_bound g Outgoing \<union> set (neighborId # rest)) - marked (visiting, visited))"
    by (intro card_mono) (auto simp: reach_bound_def)
  then show ?case by auto
next
  case (6 g edgeTypes nodeId neighborId rest visiting visited)
  have "card ((reach_bound g Outgoing \<union> set rest) - marked (visiting, visited))
      \<le> card ((reach_bound g Outgoing \<union> set (neighborId # rest)) - marked (visiting, visited))"
    by (intro card_mono) (auto simp: reach_bound_def)
  then show ?case by auto
qed

declare detectCycleUtil.simps [simp del]

fun detect_from :: "graph \<Rightarrow> string list option \<Rightarrow> node_id list \<Rightarrow> marks \<Rightarrow> bool" where
  "detect_from g edgeTypes [] m = False"
| "detect_from g edgeTypes (nodeId # rest) m =
     (case detectCycleUtil g edgeTypes nodeId m of
        (True, _) \<Rightarrow> True
      | (False, m') \<Rightarrow> detect_from g edgeTypes rest m')"

definition hasCircularDependency :: "graph \<Rightarrow> edge_types \<Rightarrow> bool" where
  "hasCircularDependency g edgeTypes =
     detect_from g (types_of edgeTypes) (map_keys (nodes g)) ([], [])"

type_synonym search = "node_id js_set \<times> node_id js_set \<times> node_id list"

definition cycle_from :: "node_id \<Rightarrow> node_id list \<Rightarrow> node_id list" where
  "cycle_from neighborId path =
     (if neighborId \<in> set path then dropWhile (\<lambda>x. x \<noteq> neighborId) path
      else drop (length path - 1) path) @ [neighborId]"

function (sequential) findCycleUtil ::
    "graph \<Rightarrow> string list option \<Rightarrow> node_id \<Rightarrow> search \<Rightarrow> node_id list option \<times> search"
  and findNeighbors ::
    "graph \<Rightarrow> string list option \<Rightarrow> node_id \<Rightarrow> node_id list \<Rightarrow> search \<Rightarrow>
       node_id list option \<times> search"
where
  "findCycleUtil g edgeTypes nodeId (visiting, visited, path) =
     (case findNeighbors g edgeTypes nodeId (neighbors g Outgoing nodeId)
             (set_add nodeId visiting, visited, path @ [nodeId]) of
        (Some cyclePath, s) \<Rightarrow> (Some cyclePath, s)
      | (None, (visiting', visited', path')) \<Rightarrow>
          (None, (set_delete nodeId visiting', set_add nodeId visited', butlast path')))"
| "findNeighbors g edgeTypes nodeId [] s = (None, s)"
| "findNeighbors g edgeTypes nodeId (neighborId # rest) (visiting, visited, path) =
     (if follows g edgeTypes Outgoing nodeId neighborId then
        if neighborId \<in> set visiting
        then (Some (cycle_from neighborId path), (visiting, visited, path))
        else if neighborId \<notin> set visited then
          (case findCycleUtil g edgeTypes neighborId (visiting, visited, path) of
             (Some cyclePath, s) \<Rightarrow> (Some cyclePath, s)
           | (None, s) \<Rightarrow> findNeighbors g edgeTypes nodeId rest s)
        else findNeighbors g edgeTypes nodeId rest (visiting, visited, path)
      else findNeighbors g edgeTypes nodeId rest (visiting, visited, path))"
  by pat_completeness auto

definition explored :: "search \<Rightarrow> node_id set" where
  "explored s = set (fst s) \<union> set (fst (snd s))"

lemma explored_grows_dom:
  "findCycleUtil_findNeighbors_dom (Inl (g, edgeTypes, nodeId, s)) \<Longrightarrow>
     explored s \<subseteq> explored (snd (findCycleUtil g edgeTypes nodeId s))"
  "findCycleUtil_findNeighbors_dom (Inr (g, edgeTypes, nodeId, ns, s)) \<Longrightarrow>
     explored s \<subseteq> explored (snd (findNeighbors g edgeTypes nodeId ns s))"
proof (induction g edgeTypes nodeId s and g edgeTypes nodeId ns s
    rule: findCycleUtil_findNeighbors.pinduct)
  case (1 g edgeTypes nodeId visiting visited path)
  then show ?case
    by (auto simp: findCycleUtil.psimps explored_def set_set_add set_set_delete
        split: prod.splits option.splits)
next
  case (2 g edgeTypes nodeId s)
  then show ?case by (simp add: findNeighbors.psimps)
next
  case (3 g edgeTypes nodeId neighborId rest visiting visited path)
  show ?case
  proof (cases "follows g edgeTypes Outgoing nodeId neighborId \<and> neighborId \<notin> set visiting
      \<and> neighborId \<notin> set visited")
    case False
    with 3 show ?thesis by (auto simp: findNeighbors.psimps)
  next
    case True
    obtain r s' where r: "findCycleUtil g edgeTypes neighborId (visiting, visited, path) = (r, s')"
      by (cases "findCycleUtil g edgeTypes neighborId (visiting, visited, path)")
    from True 3(2) r have g1: "explored (visiting, visited, path) \<subseteq> explored s'" by simp
    show ?thesis
    proof (cases r)
      case (Some c)
      with True 3(1) r g1 show ?thesis
        by (simp add: findNeighbors.psimps)
    next
      case None
      with True 3(3)[OF _ _ _ r[symmetric]] have "explored s' \<subseteq>
          explored (snd (findNeighbors g edgeTypes nodeId rest s'))" by simp
      with g1 True None 3(1) r show ?thesis
        by (auto simp: findNeighbors.psimps)
    qed
  qed
qed

termination findCycleUtil
proof (relation "measures
    [\<lambda>x. case x of
        Inl (g, edgeTypes, nodeId, s) \<Rightarrow> card (reach_bound g Outgoing - insert nodeId (explored s))
      | Inr (g, edgeTypes, nodeId, ns, s) \<Rightarrow> card ((reach_bound g Outgoing \<union> set ns) - explored s),
     \<lambda>x. case x of Inl _ \<Rightarrow> 1 | Inr _ \<Rightarrow> 0,
     \<lambda>x. case x of Inl _ \<Rightarrow> 0 | Inr (g, edgeTypes, nodeId, ns, s) \<Rightarrow> length ns]",
    goal_cases)
  case 1
  show ?case by simp
next
  case (2 g edgeTypes nodeId visiting visited path)
  have "reach_bound g Outgoing \<union> set (neighbors g Outgoing nodeId) = reach_bound g Outgoing"
    using neighbors_bound[of g Outgoing nodeId] by blast
  moreover have "explored (set_add nodeId visiting, visited, path @ [nodeId]) =
      insert nodeId (explored (visiting, visited, path))"
    by (simp add: explored_def set_set_add)
  ultimately show ?case by simp
next
  case (3 g edgeTypes nodeId neighborId rest visiting visited path)
  then have "reach_bound g Outgoing - insert neighborId (explored (visiting, visited, path))
      \<subset> (reach_bound g Outgoing \<union> set (neighborId # rest)) - explored (visiting, visited, path)"
    by (auto simp: explored_def)
  then have "card (reach_bound g Outgoing - insert neighborId (explored (visiting, visited, path)))
      < card ((reach_bound g Outgoing \<union> set (neighborId # rest))
          - explored (visiting, visited, path))"
    by (intro psubset_card_mono) (auto simp: reach_bound_def)
  then show ?case by simp
next
  case (4 g edgeTypes nodeId neighborId rest visiting visited path x y)
  then have "explored (visiting, visited, path) \<subseteq> explored y"
    using explored_grows_dom(1)[of g edgeTypes neighborId "(visiting, visited, path)"]
    by (metis snd_conv)
  then have "card ((reach_bound g Outgoing \<union> set rest) - explored y)
      \<le> card ((reach_bound g Outgoing \<union> set (neighborId # rest))
          - explored (visiting, visited, path))"
    by (intro card_mono) (auto simp: reach_bound_def)
  then show ?case by auto
next
  case (5 g edgeTypes nodeId neighborId rest visiting visited path)
  have "card ((reach_bound g Outgoing \<union> set rest) - explored (visiting, visited, path))
      \<le> card ((reach_bound g Outgoing \<union> set (neighborId # rest))
          - explored (visiting, visited, path))"
    by (intro card_mono) (auto simp: reach_bound_def)
  then show ?case by auto
next
  case (6 g edgeTypes nodeId neighborId rest visiting visited path)
  have "card ((reach_bound g Outgoing \<union> set rest) - explored (visiting, visited, path))
      \<le> card ((reach_bound g Outgoing \<union> set (neighborId # rest))
          - explored (visiting, visited, path))"
    by (intro card_mono) (auto simp: reach_bound_def)
  then show ?case by auto
qed

declare findCycleUtil.simps [simp del]

fun find_from :: "graph \<Rightarrow> string list option \<Rightarrow> node_id list \<Rightarrow> node_id js_set \<Rightarrow> node_id list option" where
  "find_from g edgeTypes [] visited = None"
| "find_from g edgeTypes (nodeId # rest) visited =
     (if nodeId \<notin> set visited then
        (case findCycleUtil g edgeTypes nodeId ([], visited, []) of
           (Some cyclePath, _) \<Rightarrow> Some cyclePath
         | (None, (_, visited', _)) \<Rightarrow> find_from g edgeTypes rest visited')
      else find_from g edgeTypes rest visited)"

definition findCircularDependency :: "graph \<Rightarrow> edge_types \<Rightarrow> node_id list option" where
  "findCircularDependency g edgeTypes =
     find_from g (types_of edgeTypes) (map_keys (nodes g)) []"


definition two_cycle :: "string \<Rightarrow> string \<Rightarrow> graph" where
  "two_cycle t1 t2 =
     \<lparr>nodes = [(''A'', [''B'']), (''B'', [''A''])],
      incomingEdges = [(''A'', [''B'']), (''B'', [''A''])],
      edges = [(''A->B'', \<lparr>to = ''B'', type = t1\<rparr>), (''B->A'', \<lparr>to = ''A'', type = t2\<rparr>)]\<rparr>"

lemma two_cycle_calls:
  "perform_all [AddEdge ''A'' ''B'' t1, AddEdge ''B'' ''A'' t2] new_graph = Inr (two_cycle t1 t2)"
  by (simp add: addEdge_def addNode_def new_graph_def map_has_def map_adjust_def set_add_def
      edgeId_def two_cycle_def Let_def)


text \<open>The equations that evaluate the two detectors on an explicit graph.\<close>

lemmas cycle_eval =
  hasCircularDependency_def findCircularDependency_def two_cycle_def map_keys_def
  detectCycleUtil.simps findCycleUtil.simps neighbors_def adjacencyMap_def set_or_empty_def
  follows_def edge_between_def edgeId_def type_allowed_def set_add_def set_delete_def
  cycle_from_def

lemma two_cycle_unfiltered:
  "hasCircularDependency (two_cycle t1 t2) Unset"
  "findCircularDependency (two_cycle t1 t2) Unset = Some [''A'', ''B'', ''A'']"
  by (simp_all add: cycle_eval)

lemma two_cycle_filtered:
  assumes "t1 \<notin> set us" and "t2 \<notin> set us"
  shows "\<not> hasCircularDependency (two_cycle t1 t2) (Several us)"
    and "findCircularDependency (two_cycle t1 t2) (Several us) = None"
  using assms by (simp_all add: cycle_eval)

lemma two_cycle_single:
  assumes "u \<noteq> []" and "u \<noteq> t1" and "u \<noteq> t2"
  shows "\<not> hasCircularDependency (two_cycle t1 t2) (Single u)"
    and "findCircularDependency (two_cycle t1 t2) (Single u) = None"
  using assms by (auto simp add: cycle_eval)

text \<open>
  C7. The store built by \<^verbatim>\<open>addEdge('A','B','link')\<close> and \<^verbatim>\<open>addEdge('B','A','link')\<close> has a
  circular dependency, and the path found is \<^verbatim>\<open>['A','B','A']\<close>. Filtering by the unused
  type \<^verbatim>\<open>'other'\<close>, as a string or in an array, gives false and \<^verbatim>\<open>null\<close>. The empty
  string is a type no edge of the cycle uses either, and in an array it filters like any
  other type; passed as a string it fails the truthiness test that normalises
  \<^verbatim>\<open>edgeTypes\<close>, so the detectors check all edges and report the cycle.
\<close>

theorem empty_type_filter_ignored:
  "perform_all [AddEdge ''A'' ''B'' ''link'', AddEdge ''B'' ''A'' ''link''] new_graph =
     Inr (two_cycle ''link'' ''link'') \<and>
   hasCircularDependency (two_cycle ''link'' ''link'') Unset \<and>
   findCircularDependency (two_cycle ''link'' ''link'') Unset = Some [''A'', ''B'', ''A''] \<and>
   \<not> hasCircularDependency (two_cycle ''link'' ''link'') (Single ''other'') \<and>
   findCircularDependency (two_cycle ''link'' ''link'') (Single ''other'') = None \<and>
   \<not> hasCircularDependency (two_cycle ''link'' ''link'') (Several [''other'']) \<and>
   findCircularDependency (two_cycle ''link'' ''link'') (Several [''other'']) = None \<and>
   \<not> hasCircularDependency (two_cycle ''link'' ''link'') (Several ['''']) \<and>
   findCircularDependency (two_cycle ''link'' ''link'') (Several ['''']) = None \<and>
   '''' \<notin> type ` snd ` set (edges (two_cycle ''link'' ''link'')) \<and>
   hasCircularDependency (two_cycle ''link'' ''link'') (Single '''') \<and>
   findCircularDependency (two_cycle ''link'' ''link'') (Single '''') =
     Some [''A'', ''B'', ''A'']"
proof -
  have "'''' \<notin> type ` snd ` set (edges (two_cycle ''link'' ''link''))"
    by (simp add: two_cycle_def)
  moreover have "hasCircularDependency (two_cycle ''link'' ''link'') (Single '''')"
    and "findCircularDependency (two_cycle ''link'' ''link'') (Single '''') =
      Some [''A'', ''B'', ''A'']"
    by (simp_all add: cycle_eval)
  ultimately show ?thesis
    using two_cycle_calls[of "''link''" "''link''"] two_cycle_unfiltered[of "''link''" "''link''"]
      two_cycle_single[of "''other''" "''link''" "''link''"]
      two_cycle_filtered[of "''link''" "[''other'']" "''link''"]
      two_cycle_filtered[of "''link''" "['''']" "''link''"]
    by simp
qed

section \<open>Tree execution\<close>

text \<open>
  \<^verbatim>\<open>executeOnTree\<close> is asynchronous. Between two suspension points JavaScript runs a
  function to the end, so a run is a sequence of atomic steps:

  \<^item> the call itself, up to the first \<^verbatim>\<open>await\<close>: the checks of \<^verbatim>\<open>executeOnTree\<close> and the
    attempt to run the start node (\<open>executeOnTree\<close> below returns the state it leaves);
  \<^item> \<open>Settle i\<close>: the callback of invocation \<open>i\<close> has settled and \<^verbatim>\<open>_executeTreeNode\<close>
    resumes after its \<^verbatim>\<open>await\<close>: it fills the cache, reports progress, and attempts every
    valid neighbour, one after the other, before it awaits them all;
  \<^item> \<open>Release i\<close>: the \<^verbatim>\<open>finally\<close> handler of the concurrency limiter gives the slot
    of invocation \<open>i\<close> back and starts waiting callbacks (it runs after the resumption
    above, which is one promise reaction ahead of it);
  \<^item> \<open>Abort\<close>: somebody aborts the signal.

  Which step comes next is decided outside the engine (by the time callbacks take), so
  a run is given by a schedule, a list of steps; a step that is not possible in a state
  has no successor. A callback is a function from its three arguments to what the
  promise it returns settles to, \<open>Inl\<close> an exception and \<open>Inr\<close> a value. Results are
  values of \<open>jsval\<close>; numbers are the integers that doubles represent exactly. The
  callback is taken to be a function, so the \<^verbatim>\<open>typeof\<close> check is not modelled.

  The calls of \<^verbatim>\<open>_executeTreeNode\<close> form a tree of frames. A frame is rejected at once
  (the signal was aborted), fulfilled at once (a circular reference), waiting for its
  callback, rejected by the rethrow of \<^verbatim>\<open>fail-fast\<close>, or a node above the frames of its
  children. \<open>settled\<close> reads off such a tree what the promise of its root is:
  \<^verbatim>\<open>Promise.all\<close> rejects as soon as one child has rejected, \<^verbatim>\<open>Promise.allSettled\<close>
  waits for all children and turns a rejected child into an error node. Where several
  children have rejected, which rejection reaches \<^verbatim>\<open>Promise.all\<close> first is a matter of
  promise reactions the steps do not order, so \<open>Rejected\<close> carries all candidates.
\<close>

datatype jsval = Null | Undefined | Num int | NaN | Str string

record exec_context =
  depth :: nat
  path :: "node_id list"
  parentNode :: "node_id option"
  edgeType :: "string option"
  siblings :: "node_id list"

datatype error_strategy = FailFast | CollectErrors | SkipChildren

type_synonym callback = "node_id \<Rightarrow> jsval \<Rightarrow> exec_context \<Rightarrow> js_error + jsval"

record exec_options =
  edgeTypes :: edge_types
  direction :: direction
  errorStrategy :: error_strategy
  maxConcurrency :: "nat option"
  signal :: "bool option"
  onProgress :: "(node_id \<Rightarrow> jsval \<Rightarrow> js_error option) option"

definition default_options :: exec_options where
  "default_options =
     \<lparr>edgeTypes = Unset, direction = Outgoing, errorStrategy = FailFast,
      maxConcurrency = None, signal = None, onProgress = None\<rparr>"

datatype exec_node =
  ExecNode node_id jsval "js_error option" bool "exec_node list"

datatype phase = Queued | Running | Releasing

record task =
  task_id :: nat
  nodeId :: node_id
  parentResult :: jsval
  ctx :: exec_context
  phase :: phase

datatype frame =
    FRejected node_id js_error
  | FCircular node_id jsval
  | FPending nat node_id
  | FThrown node_id js_error
  | FNode node_id jsval "js_error option" "frame list"

datatype event =
    Invoked node_id jsval exec_context
  | Settled node_id "js_error + jsval"
  | Progress node_id jsval

record exec_state =
  visitedKeys :: "string js_set"
  resultCache :: "(node_id, jsval) js_map"
  aborted :: bool
  next_id :: nat
  tasks :: "task list"
  waiting :: "nat list"
  running :: nat
  root :: frame
  trace :: "event list"

subsection \<open>Attempts, steps and runs\<close>

text \<open>
  \<^verbatim>\<open>maxConcurrency ? this._createConcurrencyLimiter(maxConcurrency) : null\<close>: zero is falsy
  and means no limiter. The key of the visited set is \<^verbatim>\<open>`${nodeId}::${edgeType}`\<close>, in
  which \<^verbatim>\<open>null\<close> prints as \<^verbatim>\<open>null\<close>.
\<close>

definition limit :: "exec_options \<Rightarrow> nat option" where
  "limit opts = (case maxConcurrency opts of None \<Rightarrow> None | Some n \<Rightarrow> if n = 0 then None else Some n)"

definition visitKey :: "node_id \<Rightarrow> string option \<Rightarrow> string" where
  "visitKey n et = n @ ''::'' @ (case et of None \<Rightarrow> ''null'' | Some t \<Rightarrow> t)"

definition abort_error :: js_error where
  "abort_error = Error ''Execution aborted''"

definition set_phase :: "nat \<Rightarrow> phase \<Rightarrow> task list \<Rightarrow> task list" where
  "set_phase i ph ts = map (\<lambda>t. if task_id t = i then t\<lparr>phase := ph\<rparr> else t) ts"

definition find_task :: "nat \<Rightarrow> task list \<Rightarrow> task option" where
  "find_task i ts = find (\<lambda>t. task_id t = i) ts"

definition invoke :: "task \<Rightarrow> event" where
  "invoke t = Invoked (nodeId t) (parentResult t) (ctx t)"

definition cached :: "exec_state \<Rightarrow> node_id \<Rightarrow> jsval" where
  "cached s n = (case map_of (resultCache s) n of None \<Rightarrow> Undefined | Some v \<Rightarrow> v)"

text \<open>
  \<^verbatim>\<open>processQueue\<close> of the limiter starts waiting callbacks, oldest first, while a slot
  is free. Without a limiter \<open>admit\<close> calls the callback at once; with one it puts the
  invocation at the end of the queue and runs \<^verbatim>\<open>processQueue\<close>.
\<close>

fun processQueue :: "nat \<Rightarrow> exec_state \<Rightarrow> nat list \<Rightarrow> exec_state" where
  "processQueue cap s [] = s\<lparr>waiting := []\<rparr>"
| "processQueue cap s (i # rest) =
     (if running s < cap then
        processQueue cap
          (s\<lparr>running := running s + 1,
             tasks := set_phase i Running (tasks s),
             trace := trace s @ (case find_task i (tasks s) of None \<Rightarrow> [] | Some t \<Rightarrow> [invoke t])\<rparr>)
          rest
      else s\<lparr>waiting := i # rest\<rparr>)"

definition admit :: "exec_options \<Rightarrow> task \<Rightarrow> exec_state \<Rightarrow> exec_state" where
  "admit opts t s =
     (case limit opts of
        None \<Rightarrow> s\<lparr>tasks := tasks s @ [t\<lparr>phase := Running\<rparr>], trace := trace s @ [invoke t]\<rparr>
      | Some cap \<Rightarrow>
          processQueue cap (s\<lparr>tasks := tasks s @ [t\<lparr>phase := Queued\<rparr>]\<rparr>)
            (waiting s @ [task_id t]))"

text \<open>
  The beginning of \<^verbatim>\<open>_executeTreeNode\<close>, up to its \<^verbatim>\<open>await\<close>: the cancellation check,
  the visited check, and the call of the callback through the limiter.
\<close>

definition launch ::
  "exec_options \<Rightarrow> node_id \<Rightarrow> jsval \<Rightarrow> node_id option \<Rightarrow> string option \<Rightarrow> nat \<Rightarrow> node_id list \<Rightarrow>
   exec_state \<Rightarrow> frame \<times> exec_state" where
  "launch opts n pr parent et d pth s =
     (if aborted s then (FRejected n abort_error, s)
      else if visitKey n et \<in> set (visitedKeys s) then (FCircular n (cached s n), s)
      else
        let i = next_id s;
            t = \<lparr>task_id = i, nodeId = n, parentResult = pr,
                 ctx = \<lparr>depth = d, path = pth, parentNode = parent, edgeType = et, siblings = []\<rparr>,
                 phase = Queued\<rparr>
        in (FPending i n,
            admit opts t (s\<lparr>visitedKeys := set_add (visitKey n et) (visitedKeys s),
                             next_id := i + 1\<rparr>)))"

fun launch_all ::
  "exec_options \<Rightarrow> node_id \<Rightarrow> jsval \<Rightarrow> nat \<Rightarrow> node_id list \<Rightarrow> (node_id \<times> string) list \<Rightarrow>
   exec_state \<Rightarrow> frame list \<times> exec_state" where
  "launch_all opts n result d currentPath [] s = ([], s)"
| "launch_all opts n result d currentPath ((neighborId, childEdgeType) # rest) s =
     (let (f, s1) = launch opts neighborId result (Some n) (Some childEdgeType) (d + 1) currentPath s;
          (fs, s2) = launch_all opts n result d currentPath rest s1
      in (f # fs, s2))"

definition validNeighbors ::
  "graph \<Rightarrow> string list option \<Rightarrow> direction \<Rightarrow> node_id \<Rightarrow> (node_id \<times> string) list" where
  "validNeighbors g types dir n =
     List.map_filter
       (\<lambda>neighborId. case edge_between g dir n neighborId of
            None \<Rightarrow> None
          | Some e \<Rightarrow> if type_allowed types e then Some (neighborId, type e) else None)
       (neighbors g dir n)"

fun fill :: "nat \<Rightarrow> frame \<Rightarrow> frame \<Rightarrow> frame" where
  "fill i new (FPending j n) = (if i = j then new else FPending j n)"
| "fill i new (FNode n r e cs) = FNode n r e (map (fill i new) cs)"
| "fill i new (FRejected n e) = FRejected n e"
| "fill i new (FCircular n v) = FCircular n v"
| "fill i new (FThrown n e) = FThrown n e"

text \<open>
  The rest of \<^verbatim>\<open>_executeTreeNode\<close>. The \<^verbatim>\<open>try\<close> block ends with the cache update and the
  progress report, so an exception of \<^verbatim>\<open>onProgress\<close> is caught like one of the callback,
  with the result already assigned.
\<close>

definition after_callback ::
  "exec_options \<Rightarrow> node_id \<Rightarrow> js_error + jsval \<Rightarrow> exec_state \<Rightarrow> jsval \<times> js_error option \<times> exec_state" where
  "after_callback opts n r s =
     (case r of
        Inl err \<Rightarrow> (Null, Some err, s\<lparr>resultCache := AList.update n Undefined (resultCache s)\<rparr>)
      | Inr v \<Rightarrow>
          let s1 = s\<lparr>resultCache := AList.update n v (resultCache s)\<rparr>
          in (case onProgress opts of
                None \<Rightarrow> (v, None, s1)
              | Some report \<Rightarrow>
                  let s2 = s1\<lparr>trace := trace s1 @ [Progress n v]\<rparr>
                  in (case report n v of
                        None \<Rightarrow> (v, None, s2)
                      | Some err \<Rightarrow>
                          (v, Some err,
                           s2\<lparr>resultCache := AList.update n Undefined (resultCache s2)\<rparr>))))"

definition retire :: "exec_options \<Rightarrow> nat \<Rightarrow> exec_state \<Rightarrow> exec_state" where
  "retire opts i s =
     (case limit opts of
        None \<Rightarrow> s\<lparr>tasks := filter (\<lambda>t. task_id t \<noteq> i) (tasks s)\<rparr>
      | Some cap \<Rightarrow> s\<lparr>tasks := set_phase i Releasing (tasks s)\<rparr>)"

definition settle :: "graph \<Rightarrow> callback \<Rightarrow> exec_options \<Rightarrow> nat \<Rightarrow> exec_state \<Rightarrow> exec_state option" where
  "settle g cb opts i s =
     (case find_task i (tasks s) of
        None \<Rightarrow> None
      | Some t \<Rightarrow>
          if phase t \<noteq> Running then None
          else
            let r = cb (nodeId t) (parentResult t) (ctx t);
                (result, error, s1) =
                  after_callback opts (nodeId t) r (s\<lparr>trace := trace s @ [Settled (nodeId t) r]\<rparr>);
                s2 = retire opts i s1
            in (case error of
                  Some err \<Rightarrow>
                    if errorStrategy opts = FailFast
                    then Some (s2\<lparr>root := fill i (FThrown (nodeId t) err) (root s2)\<rparr>)
                    else if errorStrategy opts = SkipChildren
                    then Some (s2\<lparr>root := fill i (FNode (nodeId t) result error []) (root s2)\<rparr>)
                    else
                      let (cs, s3) =
                            launch_all opts (nodeId t) result (depth (ctx t))
                              (path (ctx t) @ [nodeId t])
                              (validNeighbors g (types_of (edgeTypes opts)) (direction opts) (nodeId t))
                              s2
                      in Some (s3\<lparr>root := fill i (FNode (nodeId t) result error cs) (root s3)\<rparr>)
                | None \<Rightarrow>
                    let (cs, s3) =
                          launch_all opts (nodeId t) result (depth (ctx t))
                            (path (ctx t) @ [nodeId t])
                            (validNeighbors g (types_of (edgeTypes opts)) (direction opts) (nodeId t))
                            s2
                    in Some (s3\<lparr>root := fill i (FNode (nodeId t) result error cs) (root s3)\<rparr>)))"

definition release :: "exec_options \<Rightarrow> nat \<Rightarrow> exec_state \<Rightarrow> exec_state option" where
  "release opts i s =
     (case (limit opts, find_task i (tasks s)) of
        (Some cap, Some t) \<Rightarrow>
          if phase t \<noteq> Releasing then None
          else Some (processQueue cap
                 (s\<lparr>tasks := filter (\<lambda>t. task_id t \<noteq> i) (tasks s), running := running s - 1\<rparr>)
                 (waiting s))
      | _ \<Rightarrow> None)"

definition abort :: "exec_options \<Rightarrow> exec_state \<Rightarrow> exec_state option" where
  "abort opts s = (case signal opts of None \<Rightarrow> None | Some _ \<Rightarrow> Some (s\<lparr>aborted := True\<rparr>))"

datatype step = Settle nat | Release nat | Abort

fun perform_step :: "graph \<Rightarrow> callback \<Rightarrow> exec_options \<Rightarrow> step \<Rightarrow> exec_state \<Rightarrow> exec_state option" where
  "perform_step g cb opts (Settle i) s = settle g cb opts i s"
| "perform_step g cb opts (Release i) s = release opts i s"
| "perform_step g cb opts Abort s = abort opts s"

fun run :: "graph \<Rightarrow> callback \<Rightarrow> exec_options \<Rightarrow> step list \<Rightarrow> exec_state \<Rightarrow> exec_state option" where
  "run g cb opts [] s = Some s"
| "run g cb opts (st # rest) s =
     (case perform_step g cb opts st s of None \<Rightarrow> None | Some s' \<Rightarrow> run g cb opts rest s')"

definition executeOnTree :: "graph \<Rightarrow> node_id \<Rightarrow> exec_options \<Rightarrow> js_error + exec_state" where
  "executeOnTree g startNodeId opts =
     (if \<not> map_has (nodes g) startNodeId
      then Inl (Error (''Start node '' @ [CHR 0x27] @ startNodeId @ [CHR 0x27] @ '' does not exist.''))
      else
        let (f, s) =
              launch opts startNodeId Null None None 0 []
                \<lparr>visitedKeys = [], resultCache = [], aborted = (signal opts = Some True),
                 next_id = 0, tasks = [], waiting = [], running = 0,
                 root = FPending 0 startNodeId,
                 trace = []\<rparr>
        in Inr (s\<lparr>root := f\<rparr>))"

subsection \<open>The promise of a frame\<close>

datatype promise = Pending | Fulfilled exec_node | Rejected "js_error list"

fun reasons :: "promise \<Rightarrow> js_error list" where
  "reasons (Rejected es) = es"
| "reasons _ = []"

fun frame_node :: "frame \<Rightarrow> node_id" where
  "frame_node (FRejected n e) = n"
| "frame_node (FCircular n v) = n"
| "frame_node (FPending i n) = n"
| "frame_node (FThrown n e) = n"
| "frame_node (FNode n r e cs) = n"

fun fulfilled_value :: "promise \<Rightarrow> exec_node option" where
  "fulfilled_value (Fulfilled v) = Some v"
| "fulfilled_value _ = None"

fun settled_value :: "node_id \<times> promise \<Rightarrow> exec_node option" where
  "settled_value (neighborId, Fulfilled v) = Some v"
| "settled_value (neighborId, Rejected (reason # _)) =
     Some (ExecNode neighborId Null (Some reason) False [])"
| "settled_value (neighborId, Rejected []) = None"
| "settled_value (neighborId, Pending) = None"

fun settled :: "error_strategy \<Rightarrow> frame \<Rightarrow> promise" where
  "settled strategy (FRejected n e) = Rejected [e]"
| "settled strategy (FCircular n v) = Fulfilled (ExecNode n v None True [])"
| "settled strategy (FPending i n) = Pending"
| "settled strategy (FThrown n e) = Rejected [e]"
| "settled strategy (FNode n r e cs) =
     (let ps = map (settled strategy) cs in
      if strategy = FailFast then
        if concat (map reasons ps) \<noteq> [] then Rejected (concat (map reasons ps))
        else (case those_map fulfilled_value ps of
                None \<Rightarrow> Pending
              | Some vs \<Rightarrow> Fulfilled (ExecNode n r e False vs))
      else
        (case those_map settled_value (zip (map frame_node cs) ps) of
           None \<Rightarrow> Pending
         | Some vs \<Rightarrow> Fulfilled (ExecNode n r e False vs)))"

definition promise_of :: "exec_options \<Rightarrow> exec_state \<Rightarrow> promise" where
  "promise_of opts s = settled (errorStrategy opts) (root s)"

definition observe ::
  "graph \<Rightarrow> node_id \<Rightarrow> callback \<Rightarrow> exec_options \<Rightarrow> step list \<Rightarrow> (promise \<times> event list) option" where
  "observe g startNodeId cb opts schedule =
     (case executeOnTree g startNodeId opts of
        Inl err \<Rightarrow> (if schedule = [] then Some (Rejected [err], []) else None)
      | Inr s0 \<Rightarrow>
          (case run g cb opts schedule s0 of
             None \<Rightarrow> None
           | Some s \<Rightarrow> Some (promise_of opts s, trace s)))"

subsection \<open>The waterfall on a chain\<close>

definition chain :: graph where
  "chain =
     \<lparr>nodes = [(''A'', [''B'']), (''B'', [''C'']), (''C'', [])],
      incomingEdges = [(''A'', []), (''B'', [''A'']), (''C'', [''B''])],
      edges = [(''A->B'', \<lparr>to = ''B'', type = ''calc''\<rparr>), (''B->C'', \<lparr>to = ''C'', type = ''calc''\<rparr>)]\<rparr>"

lemma chain_calls:
  "perform_all [AddEdge ''A'' ''B'' ''calc'', AddEdge ''B'' ''C'' ''calc''] new_graph = Inr chain"
  by code_simp

text \<open>
  \<^verbatim>\<open>parentResult * 2\<close>: \<^verbatim>\<open>null\<close> counts as zero and \<^verbatim>\<open>undefined\<close> gives \<^verbatim>\<open>NaN\<close>; a
  string is taken not to spell a number.
\<close>

fun times2 :: "jsval \<Rightarrow> jsval" where
  "times2 (Num x) = Num (x * 2)"
| "times2 Null = Num 0"
| "times2 _ = NaN"

definition waterfall :: callback where
  "waterfall n pr c = Inr (case parentNode c of None \<Rightarrow> Num 10 | Some _ \<Rightarrow> times2 pr)"

text \<open>The steps that are possible in a state.\<close>

definition enabled_steps :: "exec_options \<Rightarrow> exec_state \<Rightarrow> step list" where
  "enabled_steps opts s =
     map (\<lambda>t. Settle (task_id t)) (filter (\<lambda>t. phase t = Running) (tasks s)) @
     (if limit opts = None then []
      else map (\<lambda>t. Release (task_id t)) (filter (\<lambda>t. phase t = Releasing) (tasks s))) @
     (if signal opts = None then [] else [Abort])"

definition enabled_after ::
  "graph \<Rightarrow> node_id \<Rightarrow> callback \<Rightarrow> exec_options \<Rightarrow> step list \<Rightarrow> step list option" where
  "enabled_after g startNodeId cb opts schedule =
     (case executeOnTree g startNodeId opts of
        Inl err \<Rightarrow> None
      | Inr s0 \<Rightarrow> map_option (enabled_steps opts) (run g cb opts schedule s0))"

lemma find_task_Some: "find_task i ts = Some t \<Longrightarrow> t \<in> set ts \<and> task_id t = i"
  unfolding find_task_def by (induction ts) (auto split: if_splits)

lemma step_enabled:
  assumes "perform_step g cb opts st s = Some s'"
  shows "st \<in> set (enabled_steps opts s)"
proof (cases st)
  case (Settle i)
  with assms obtain t where "find_task i (tasks s) = Some t" "phase t = Running"
    by (auto simp: settle_def split: option.splits if_splits)
  with find_task_Some[of i "tasks s" t] Settle show ?thesis
    by (force simp: enabled_steps_def)
next
  case (Release i)
  with assms obtain t where "find_task i (tasks s) = Some t" "phase t = Releasing"
    "limit opts \<noteq> None"
    by (auto simp: release_def split: option.splits if_splits)
  with find_task_Some[of i "tasks s" t] Release show ?thesis
    by (force simp: enabled_steps_def)
next
  case Abort
  with assms show ?thesis
    by (auto simp: abort_def enabled_steps_def split: option.splits)
qed

lemma run_append:
  "run g cb opts (xs @ ys) s =
     (case run g cb opts xs s of None \<Rightarrow> None | Some s' \<Rightarrow> run g cb opts ys s')"
  by (induction xs arbitrary: s) (auto split: option.splits)

lemma observe_snoc:
  assumes "observe g startNodeId cb opts (schedule @ [st]) = Some r"
  shows "\<exists>en. enabled_after g startNodeId cb opts schedule = Some en \<and> st \<in> set en"
proof -
  from assms obtain s0 where s0: "executeOnTree g startNodeId opts = Inr s0"
    by (cases "executeOnTree g startNodeId opts") (auto simp: observe_def)
  with assms obtain s where s: "run g cb opts schedule s0 = Some s"
    and "perform_step g cb opts st s \<noteq> None"
    by (auto simp: observe_def run_append split: option.splits)
  then obtain s' where "perform_step g cb opts st s = Some s'" by blast
  from step_enabled[OF this] s0 s show ?thesis
    by (simp add: enabled_after_def)
qed

lemma observe_prefix:
  assumes "observe g startNodeId cb opts (xs @ ys) = Some r"
  shows "\<exists>r'. observe g startNodeId cb opts xs = Some r'"
  using assms
  by (cases "executeOnTree g startNodeId opts")
    (auto simp: observe_def run_append split: option.splits if_splits)

lemma chain_enabled:
  "enabled_after chain ''A'' waterfall default_options [] = Some [Settle 0]"
  "enabled_after chain ''A'' waterfall default_options [Settle 0] = Some [Settle 1]"
  "enabled_after chain ''A'' waterfall default_options [Settle 0, Settle 1] = Some [Settle 2]"
  "enabled_after chain ''A'' waterfall default_options [Settle 0, Settle 1, Settle 2] = Some []"
  by code_simp+

lemma chain_run:
  "observe chain ''A'' waterfall default_options [Settle 0, Settle 1, Settle 2] =
     Some (Fulfilled
            (ExecNode ''A'' (Num 10) None False
              [ExecNode ''B'' (Num 20) None False [ExecNode ''C'' (Num 40) None False []]]),
           [Invoked ''A'' Null
              \<lparr>depth = 0, path = [], parentNode = None, edgeType = None, siblings = []\<rparr>,
            Settled ''A'' (Inr (Num 10)),
            Invoked ''B'' (Num 10)
              \<lparr>depth = 1, path = [''A''], parentNode = Some ''A'', edgeType = Some ''calc'',
                 siblings = []\<rparr>,
            Settled ''B'' (Inr (Num 20)),
            Invoked ''C'' (Num 20)
              \<lparr>depth = 2, path = [''A'', ''B''], parentNode = Some ''B'', edgeType = Some ''calc'',
                 siblings = []\<rparr>,
            Settled ''C'' (Inr (Num 40))])"
  by code_simp

lemma chain_forced:
  assumes "observe chain ''A'' waterfall default_options schedule = Some r"
  shows "\<exists>rest. schedule @ rest = [Settle 0, Settle 1, Settle 2]"
proof -
  note ob = observe_snoc[of chain "''A''" waterfall default_options]
  note pre = observe_prefix[of chain "''A''" waterfall default_options]
  show ?thesis
  proof (cases schedule)
    case Nil
    then show ?thesis by simp
  next
    case (Cons a r1)
    from assms Cons pre[of "[a]" r1] ob[of "[]" a] chain_enabled(1)
    have a: "a = Settle 0" by auto
    show ?thesis
    proof (cases r1)
      case Nil
      with Cons a show ?thesis by simp
    next
      case (Cons b r2)
      from assms \<open>schedule = a # r1\<close> Cons a pre[of "[Settle 0, b]" r2] ob[of "[Settle 0]" b]
        chain_enabled(2)
      have b: "b = Settle 1" by auto
      show ?thesis
      proof (cases r2)
        case Nil
        with \<open>schedule = a # r1\<close> \<open>r1 = b # r2\<close> a b show ?thesis by simp
      next
        case (Cons c r3)
        from assms \<open>schedule = a # r1\<close> \<open>r1 = b # r2\<close> Cons a b
          pre[of "[Settle 0, Settle 1, c]" r3] ob[of "[Settle 0, Settle 1]" c] chain_enabled(3)
        have c: "c = Settle 2" by auto
        show ?thesis
        proof (cases r3)
          case Nil
          with \<open>schedule = a # r1\<close> \<open>r1 = b # r2\<close> \<open>r2 = c # r3\<close> a b c show ?thesis by simp
        next
          case (Cons d r4)
          from assms \<open>schedule = a # r1\<close> \<open>r1 = b # r2\<close> \<open>r2 = c # r3\<close> Cons a b c
            pre[of "[Settle 0, Settle 1, Settle 2, d]" r4]
            ob[of "[Settle 0, Settle 1, Settle 2]" d] chain_enabled(4)
          show ?thesis by auto
        qed
      qed
    qed
  qed
qed

lemma chain_partial:
  "observe chain ''A'' waterfall default_options [Settle 0, Settle 1] =
     Some (Pending,
           [Invoked ''A'' Null
              \<lparr>depth = 0, path = [], parentNode = None, edgeType = None, siblings = []\<rparr>,
            Settled ''A'' (Inr (Num 10)),
            Invoked ''B'' (Num 10)
              \<lparr>depth = 1, path = [''A''], parentNode = Some ''A'', edgeType = Some ''calc'',
                 siblings = []\<rparr>,
            Settled ''B'' (Inr (Num 20)),
            Invoked ''C'' (Num 20)
              \<lparr>depth = 2, path = [''A'', ''B''], parentNode = Some ''B'', edgeType = Some ''calc'',
                 siblings = []\<rparr>])"
  by code_simp

text \<open>
  C2. On the chain \<^verbatim>\<open>A -> B -> C\<close> with the callback that returns 10 at the root and
  twice the result of the parent elsewhere, under the default options, the run that
  settles the three callbacks fulfils the promise with the results 10, 20 and 40, and
  its trace is: \<^verbatim>\<open>A\<close> invoked, \<^verbatim>\<open>A\<close> settled, \<^verbatim>\<open>B\<close> invoked, \<^verbatim>\<open>B\<close> settled, \<^verbatim>\<open>C\<close>
  invoked, \<^verbatim>\<open>C\<close> settled. There is no other run: every schedule that can be executed
  is a beginning of this one.
\<close>

theorem waterfall_chain:
  "perform_all [AddEdge ''A'' ''B'' ''calc'', AddEdge ''B'' ''C'' ''calc''] new_graph = Inr chain \<and>
   observe chain ''A'' waterfall default_options [Settle 0, Settle 1, Settle 2] =
     Some (Fulfilled
            (ExecNode ''A'' (Num 10) None False
              [ExecNode ''B'' (Num 20) None False [ExecNode ''C'' (Num 40) None False []]]),
           [Invoked ''A'' Null
              \<lparr>depth = 0, path = [], parentNode = None, edgeType = None, siblings = []\<rparr>,
            Settled ''A'' (Inr (Num 10)),
            Invoked ''B'' (Num 10)
              \<lparr>depth = 1, path = [''A''], parentNode = Some ''A'', edgeType = Some ''calc'',
                 siblings = []\<rparr>,
            Settled ''B'' (Inr (Num 20)),
            Invoked ''C'' (Num 20)
              \<lparr>depth = 2, path = [''A'', ''B''], parentNode = Some ''B'', edgeType = Some ''calc'',
                 siblings = []\<rparr>,
            Settled ''C'' (Inr (Num 40))]) \<and>
   (\<forall>schedule r. observe chain ''A'' waterfall default_options schedule = Some r \<longrightarrow>
      (\<exists>rest. schedule @ rest = [Settle 0, Settle 1, Settle 2]))"
  using chain_calls chain_run chain_forced by blast

theorem waterfall_chain_witness:
  "observe chain ''A'' waterfall default_options [Settle 0, Settle 1] =
     Some (Pending,
           [Invoked ''A'' Null
              \<lparr>depth = 0, path = [], parentNode = None, edgeType = None, siblings = []\<rparr>,
            Settled ''A'' (Inr (Num 10)),
            Invoked ''B'' (Num 10)
              \<lparr>depth = 1, path = [''A''], parentNode = Some ''A'', edgeType = Some ''calc'',
                 siblings = []\<rparr>,
            Settled ''B'' (Inr (Num 20)),
            Invoked ''C'' (Num 20)
              \<lparr>depth = 2, path = [''A'', ''B''], parentNode = Some ''B'', edgeType = Some ''calc'',
                 siblings = []\<rparr>]) \<and>
   (\<exists>rest. [Settle 0, Settle 1] @ rest = [Settle 0, Settle 1, Settle 2])"
  using waterfall_chain chain_partial by blast

subsection \<open>Failures under collect\<close>

text \<open>
  An invocation keeps its arguments for as long as it lives; only its phase changes.
  \<open>calls\<close> lists the invocations that are waiting, running or about to release their
  slot.
\<close>

definition call_of :: "task \<Rightarrow> nat \<times> node_id \<times> jsval \<times> exec_context" where
  "call_of t = (task_id t, nodeId t, parentResult t, ctx t)"

definition calls :: "exec_state \<Rightarrow> (nat \<times> node_id \<times> jsval \<times> exec_context) list" where
  "calls s = map call_of (tasks s)"






lemma calls_update [simp]:
  "calls (s\<lparr>visitedKeys := v\<rparr>) = calls s"
  "calls (s\<lparr>next_id := i\<rparr>) = calls s"
  "calls (s\<lparr>resultCache := rc\<rparr>) = calls s"
  "calls (s\<lparr>trace := tr\<rparr>) = calls s"
  "calls (s\<lparr>root := f\<rparr>) = calls s"
  "calls (s\<lparr>aborted := b\<rparr>) = calls s"
  by (simp_all add: calls_def)













definition fork :: graph where
  "fork =
     \<lparr>nodes = [(''A'', [''B'', ''C'']), (''B'', []), (''C'', [])],
      incomingEdges = [(''A'', []), (''B'', [''A'']), (''C'', [''A''])],
      edges = [(''A->B'', \<lparr>to = ''B'', type = ''link''\<rparr>), (''A->C'', \<lparr>to = ''C'', type = ''link''\<rparr>)]\<rparr>"

lemma fork_calls:
  "perform_all [AddEdge ''A'' ''B'' ''link'', AddEdge ''A'' ''C'' ''link''] new_graph = Inr fork"
  by code_simp

definition fails_at_B :: callback where
  "fails_at_B n pr c = (if n = ''B'' then Inl (Error ''Error in B'') else Inr (Str (''result_'' @ n)))"

definition collect_options :: exec_options where
  "collect_options = default_options\<lparr>errorStrategy := CollectErrors\<rparr>"

definition fork_after_A :: exec_state where
  "fork_after_A =
     \<lparr>visitedKeys = [''A::null'', ''B::link'', ''C::link''],
      resultCache = [(''A'', Str ''result_A'')],
      aborted = False, next_id = 3,
      tasks =
        [\<lparr>task_id = 1, nodeId = ''B'', parentResult = Str ''result_A'',
           ctx = \<lparr>depth = 1, path = [''A''], parentNode = Some ''A'', edgeType = Some ''link'',
                   siblings = []\<rparr>,
           phase = Running\<rparr>,
         \<lparr>task_id = 2, nodeId = ''C'', parentResult = Str ''result_A'',
           ctx = \<lparr>depth = 1, path = [''A''], parentNode = Some ''A'', edgeType = Some ''link'',
                   siblings = []\<rparr>,
           phase = Running\<rparr>],
      waiting = [], running = 0,
      root = FNode ''A'' (Str ''result_A'') None [FPending 1 ''B'', FPending 2 ''C''],
      trace =
        [Invoked ''A'' Null
           \<lparr>depth = 0, path = [], parentNode = None, edgeType = None, siblings = []\<rparr>,
         Settled ''A'' (Inr (Str ''result_A'')),
         Invoked ''B'' (Str ''result_A'')
           \<lparr>depth = 1, path = [''A''], parentNode = Some ''A'', edgeType = Some ''link'',
              siblings = []\<rparr>,
         Invoked ''C'' (Str ''result_A'')
           \<lparr>depth = 1, path = [''A''], parentNode = Some ''A'', edgeType = Some ''link'',
              siblings = []\<rparr>]\<rparr>"

lemma fork_reaches:
  "(case executeOnTree fork ''A'' collect_options of
      Inl err \<Rightarrow> None
    | Inr s0 \<Rightarrow> run fork fails_at_B collect_options [Settle 0] s0) = Some fork_after_A"
  by code_simp




subsection \<open>Cancellation\<close>

















subsection \<open>The context of an invocation\<close>



end
